theory Spec2Isabelle
  imports Main
begin

section \<open>Optimizer step fused into the backward pass\<close>

text \<open>
  The source is one script, \<^verbatim>\<open>optimizer_step_in_backward_tutorial.py\<close>. It defines a
  baseline \<^verbatim>\<open>train(model, optimizer)\<close>, the dictionary \<^verbatim>\<open>optimizer_dict\<close>, the hook
  \<^verbatim>\<open>optimizer_hook\<close>, a second \<^verbatim>\<open>train(model)\<close>, and two measured windows that record
  the memory history around three training iterations.

  Tensors and optimizer objects are mutable Python objects compared by identity, so the
  model is an explicit store: a parameter is an identity (\<open>pid\<close>) with a value and a
  \<^verbatim>\<open>.grad\<close> accumulator, an optimizer is an identity (\<open>oid\<close>) pointing to an object
  in a heap. Every function takes the store and returns the new one. A raised exception
  is the left summand, carrying the store at the moment of the raise.
\<close>

subsection \<open>Data\<close>

type_synonym pid = nat
type_synonym oid = nat

text \<open>
  The operations the script performs, in the order it performs them. The store keeps
  this sequence in its field \<open>calls\<close>, so that claims about order can be stated.
\<close>

datatype call =
    Rand
  | Forward
  | Backward
  | AccumulateGrad pid
  | Hook pid
  | DictLookup pid
  | Step oid
  | ZeroGrad oid
  | NewAdam oid "pid list"
  | DictAssign
  | RegisterHook pid
  | DelOptimizer
  | RecordMemoryHistory bool
  | Snapshot
  | Dump string

datatype error = KeyError pid

text \<open>
  An optimizer object: the parameters it was constructed with (its single parameter
  group) and its per-parameter state, which \<^verbatim>\<open>torch.optim.Adam\<close> creates on the first
  step of that parameter.
\<close>

record 's optimizer =
  param_list :: "pid list"
  opt_state :: "pid \<rightharpoonup> 's"

record ('v, 's, 'e) world =
  data :: "pid \<Rightarrow> 'v"
  grad :: "pid \<Rightarrow> 'v option"
  post_acc_hooks :: "pid list"
  heap :: "oid \<Rightarrow> 's optimizer"
  next_oid :: oid
  optimizer_dict :: "pid \<rightharpoonup> oid"
  rng :: nat
  recording :: bool
  history :: "'e list"
  files :: "string \<rightharpoonup> 'e list"
  calls :: "call list"

text \<open>
  The framework (\<^verbatim>\<open>torch\<close>, \<^verbatim>\<open>torchvision\<close>) is not part of the repository. What its
  numerical kernels, its model and its allocator compute is taken as a parameter:
  \<^item> \<open>rand_stream\<close>: the \<open>k\<close>-th tensor \<^verbatim>\<open>torch.rand\<close> returns;
  \<^item> \<open>model_forward\<close>: the loss (with its graph) of a batch at the current parameter
    values;
  \<^item> \<open>leaf_grads\<close>: the leaves the differentiation engine reaches for a loss, in its
    traversal order, each with the gradient it accumulates into that leaf;
  \<^item> \<open>tensor_add\<close>: the addition used when a \<^verbatim>\<open>.grad\<close> is already present;
  \<^item> \<open>adam_init\<close>, \<open>adam_update\<close>: the update rule of one parameter, from its state,
    its gradient and its value to the new state and the new value;
  \<^item> \<open>allocator\<close>: the allocation and free events an operation causes, given the
    operations performed so far.
\<close>

record ('b, 'v, 's, 'l, 'e) torch =
  rand_stream :: "nat \<Rightarrow> 'b"
  model_forward :: "'b \<Rightarrow> (pid \<Rightarrow> 'v) \<Rightarrow> 'l"
  leaf_grads :: "'l \<Rightarrow> (pid \<times> 'v) list"
  tensor_add :: "'v \<Rightarrow> 'v \<Rightarrow> 'v"
  adam_init :: "'s"
  adam_update :: "'s \<Rightarrow> 'v \<Rightarrow> 'v \<Rightarrow> 's \<times> 'v"
  allocator :: "call list \<Rightarrow> call \<Rightarrow> 'e list"

type_synonym ('v, 's, 'e) result = "(error \<times> ('v, 's, 'e) world) + ('v, 's, 'e) world"

subsection \<open>Framework operations\<close>

text \<open>
  Modelled from the spec: the memory-recording facility (section 4.3). While recording
  is enabled, every allocation and free event is appended to the log.
\<close>

definition emit :: "('b, 'v, 's, 'l, 'e) torch \<Rightarrow> call \<Rightarrow> ('v, 's, 'e) world \<Rightarrow> ('v, 's, 'e) world" where
  "emit fw c w =
     w\<lparr>history := (if recording w then history w @ allocator fw (calls w) c else history w),
       calls := calls w @ [c]\<rparr>"

text \<open>\<^verbatim>\<open>torch.rand(1, 3, IMAGE_SIZE, IMAGE_SIZE).cuda()\<close>\<close>

definition rand_cuda :: "('b, 'v, 's, 'l, 'e) torch \<Rightarrow> ('v, 's, 'e) world \<Rightarrow> 'b \<times> ('v, 's, 'e) world" where
  "rand_cuda fw w = (rand_stream fw (rng w), emit fw Rand (w\<lparr>rng := Suc (rng w)\<rparr>))"

text \<open>\<^verbatim>\<open>model.forward(fake_image)\<close>\<close>

definition forward :: "('b, 'v, 's, 'l, 'e) torch \<Rightarrow> 'b \<Rightarrow> ('v, 's, 'e) world \<Rightarrow> 'l \<times> ('v, 's, 'e) world" where
  "forward fw b w = (model_forward fw b (data w), emit fw Forward w)"

text \<open>
  Modelled from the spec: the constructor \<^verbatim>\<open>torch.optim.Adam(params)\<close> (sections 3 and
  4.2, an update-rule instance that owns the parameters it is given). It makes a new
  optimizer object over the given parameters, with no state yet: the state is created
  on the first step, as the comment at lines 109 to 112 of the source says.
\<close>

definition new_adam :: "('b, 'v, 's, 'l, 'e) torch \<Rightarrow> pid list \<Rightarrow> ('v, 's, 'e) world \<Rightarrow> oid \<times> ('v, 's, 'e) world" where
  "new_adam fw ps w =
     (next_oid w,
      emit fw (NewAdam (next_oid w) ps)
        (w\<lparr>heap := (heap w)(next_oid w := \<lparr>param_list = ps, opt_state = Map.empty\<rparr>),
           next_oid := Suc (next_oid w)\<rparr>))"

text \<open>
  Modelled from the spec: \<^verbatim>\<open>Optimizer.step()\<close>, the "apply update" operation of section
  6 (it mutates the owned parameters using the accumulated gradient and the internal
  state). Every parameter of the optimizer whose \<^verbatim>\<open>.grad\<close> is present is updated in
  place from its gradient and its state; a parameter without gradient is skipped
  (section 7: no gradient, no update).
\<close>

definition state_of :: "('b, 'v, 's, 'l, 'e) torch \<Rightarrow> 's option \<Rightarrow> 's" where
  "state_of fw st = (case st of None \<Rightarrow> adam_init fw | Some s \<Rightarrow> s)"

definition step_param :: "('b, 'v, 's, 'l, 'e) torch \<Rightarrow> oid \<Rightarrow> pid \<Rightarrow> ('v, 's, 'e) world \<Rightarrow> ('v, 's, 'e) world" where
  "step_param fw opt p w =
     (case grad w p of
        None \<Rightarrow> w
      | Some g \<Rightarrow>
          (let r = adam_update fw (state_of fw (opt_state (heap w opt) p)) g (data w p)
           in w\<lparr>data := (data w)(p := snd r),
                heap := (heap w)(opt := (heap w opt)\<lparr>opt_state := (opt_state (heap w opt))(p \<mapsto> fst r)\<rparr>)\<rparr>))"

definition step :: "('b, 'v, 's, 'l, 'e) torch \<Rightarrow> oid \<Rightarrow> ('v, 's, 'e) world \<Rightarrow> ('v, 's, 'e) world" where
  "step fw opt w = fold (step_param fw opt) (param_list (heap w opt)) (emit fw (Step opt) w)"

text \<open>
  Modelled from the spec: \<^verbatim>\<open>Optimizer.zero_grad()\<close>, the "clear gradient" operation of
  section 6. The \<^verbatim>\<open>.grad\<close> of every parameter of the optimizer becomes empty (the
  buffer is released, lines 112 and 113 of the source).
\<close>

definition zero_grad :: "('b, 'v, 's, 'l, 'e) torch \<Rightarrow> oid \<Rightarrow> ('v, 's, 'e) world \<Rightarrow> ('v, 's, 'e) world" where
  "zero_grad fw opt w =
     fold (\<lambda>p w'. w'\<lparr>grad := (grad w')(p := None)\<rparr>) (param_list (heap w opt)) (emit fw (ZeroGrad opt) w)"

text \<open>
  Modelled from the spec: the gradient accumulator of a leaf (glossary and section 3,
  allocated on first use). The engine stores the gradient, or adds it to the one
  present.
\<close>

definition accumulated :: "('b, 'v, 's, 'l, 'e) torch \<Rightarrow> 'v option \<Rightarrow> 'v \<Rightarrow> 'v" where
  "accumulated fw old g = (case old of None \<Rightarrow> g | Some g0 \<Rightarrow> tensor_add fw g0 g)"

definition accumulate_grad :: "('b, 'v, 's, 'l, 'e) torch \<Rightarrow> pid \<Rightarrow> 'v \<Rightarrow> ('v, 's, 'e) world \<Rightarrow> ('v, 's, 'e) world" where
  "accumulate_grad fw p g w =
     emit fw (AccumulateGrad p) (w\<lparr>grad := (grad w)(p := Some (accumulated fw (grad w p) g))\<rparr>)"

subsection \<open>The hook\<close>

text \<open>\<^verbatim>\<open>optimizer_dict[parameter]\<close>: a missing key raises KeyError.\<close>

definition dict_getitem :: "('b, 'v, 's, 'l, 'e) torch \<Rightarrow> pid \<Rightarrow> ('v, 's, 'e) world \<Rightarrow> (error \<times> ('v, 's, 'e) world) + (oid \<times> ('v, 's, 'e) world)" where
  "dict_getitem fw p w =
     (let w' = emit fw (DictLookup p) w
      in case optimizer_dict w' p of None \<Rightarrow> Inl (KeyError p, w') | Some opt \<Rightarrow> Inr (opt, w'))"

text \<open>
  \<^verbatim>\<open>
  def optimizer_hook(parameter) -> None:
    optimizer_dict[parameter].step()
    optimizer_dict[parameter].zero_grad()
  \<close>
\<close>

definition optimizer_hook :: "('b, 'v, 's, 'l, 'e) torch \<Rightarrow> pid \<Rightarrow> ('v, 's, 'e) world \<Rightarrow> ('v, 's, 'e) result" where
  "optimizer_hook fw parameter w =
     (case dict_getitem fw parameter w of
        Inl e \<Rightarrow> Inl e
      | Inr (opt, w1) \<Rightarrow>
          (case dict_getitem fw parameter (step fw opt w1) of
             Inl e \<Rightarrow> Inl e
           | Inr (opt', w2) \<Rightarrow> Inr (zero_grad fw opt' w2)))"

subsection \<open>The differentiation engine\<close>

text \<open>
  Modelled from the spec: the differentiation engine and its post-accumulation hooks
  (sections 4.2 and 6). The hooks registered on a leaf run after the gradient of that
  leaf has been accumulated, once for each registration, in registration order, before
  the engine goes on to the next leaf; an exception raised by a hook ends the pass. The
  only hook the script registers is \<open>optimizer_hook\<close>, so a registration is the
  parameter it is on.
\<close>

fun run_hooks :: "('b, 'v, 's, 'l, 'e) torch \<Rightarrow> pid \<Rightarrow> pid list \<Rightarrow> ('v, 's, 'e) world \<Rightarrow> ('v, 's, 'e) result" where
  "run_hooks fw p [] w = Inr w"
| "run_hooks fw p (h # hs) w =
     (if h = p then
        (case optimizer_hook fw p (emit fw (Hook p) w) of
           Inl e \<Rightarrow> Inl e
         | Inr w' \<Rightarrow> run_hooks fw p hs w')
      else run_hooks fw p hs w)"

fun engine :: "('b, 'v, 's, 'l, 'e) torch \<Rightarrow> (pid \<times> 'v) list \<Rightarrow> ('v, 's, 'e) world \<Rightarrow> ('v, 's, 'e) result" where
  "engine fw [] w = Inr w"
| "engine fw ((p, g) # ds) w =
     (case run_hooks fw p (post_acc_hooks w) (accumulate_grad fw p g w) of
        Inl e \<Rightarrow> Inl e
      | Inr w' \<Rightarrow> engine fw ds w')"

text \<open>\<^verbatim>\<open>loss.sum().backward()\<close>\<close>

definition backward :: "('b, 'v, 's, 'l, 'e) torch \<Rightarrow> 'l \<Rightarrow> ('v, 's, 'e) world \<Rightarrow> ('v, 's, 'e) result" where
  "backward fw loss w = engine fw (leaf_grads fw loss) (emit fw Backward w)"

text \<open>\<^verbatim>\<open>p.register_post_accumulate_grad_hook(optimizer_hook)\<close>\<close>

definition register_post_accumulate_grad_hook :: "('b, 'v, 's, 'l, 'e) torch \<Rightarrow> pid \<Rightarrow> ('v, 's, 'e) world \<Rightarrow> ('v, 's, 'e) world" where
  "register_post_accumulate_grad_hook fw p w =
     emit fw (RegisterHook p) (w\<lparr>post_acc_hooks := post_acc_hooks w @ [p]\<rparr>)"

subsection \<open>The two training functions\<close>

text \<open>
  \<^verbatim>\<open>
  def train(model, optimizer):
    fake_image = torch.rand(1, 3, IMAGE_SIZE, IMAGE_SIZE).cuda()
    loss = model.forward(fake_image)
    loss.sum().backward()
    optimizer.step()
    optimizer.zero_grad()
  \<close>
\<close>

definition train :: "('b, 'v, 's, 'l, 'e) torch \<Rightarrow> oid \<Rightarrow> ('v, 's, 'e) world \<Rightarrow> ('v, 's, 'e) result" where
  "train fw opt w =
     (let (fake_image, w1) = rand_cuda fw w;
          (loss, w2) = forward fw fake_image w1
      in case backward fw loss w2 of
           Inl e \<Rightarrow> Inl e
         | Inr w3 \<Rightarrow> Inr (zero_grad fw opt (step fw opt w3)))"

text \<open>
  The second definition of \<^verbatim>\<open>train\<close> (line 188), which replaces the first:
  \<^verbatim>\<open>
  def train(model):
    fake_image = torch.rand(1, 3, IMAGE_SIZE, IMAGE_SIZE).cuda()
    loss = model.forward(fake_image)
    loss.sum().backward()
  \<close>
\<close>

definition train' :: "('b, 'v, 's, 'l, 'e) torch \<Rightarrow> ('v, 's, 'e) world \<Rightarrow> ('v, 's, 'e) result" where
  "train' fw w =
     (let (fake_image, w1) = rand_cuda fw w;
          (loss, w2) = forward fw fake_image w1
      in backward fw loss w2)"

text \<open>\<^verbatim>\<open>for _ in range(n): body\<close>, stopping at the first exception.\<close>

fun repeat :: "nat \<Rightarrow> (('v, 's, 'e) world \<Rightarrow> ('v, 's, 'e) result) \<Rightarrow> ('v, 's, 'e) world \<Rightarrow> ('v, 's, 'e) result" where
  "repeat 0 body w = Inr w"
| "repeat (Suc n) body w = (case body w of Inl e \<Rightarrow> Inl e | Inr w' \<Rightarrow> repeat n body w')"

subsection \<open>Setting up the fused design\<close>

text \<open>
  \<^verbatim>\<open>optimizer_dict = {p: torch.optim.Adam([p], foreach=False) for p in model.parameters()}\<close>

  The comprehension fills a new dictionary, one optimizer constructed per parameter,
  and the result is bound to the name.
\<close>

fun dict_comprehension :: "('b, 'v, 's, 'l, 'e) torch \<Rightarrow> pid list \<Rightarrow> (pid \<rightharpoonup> oid) \<Rightarrow> ('v, 's, 'e) world \<Rightarrow> (pid \<rightharpoonup> oid) \<times> ('v, 's, 'e) world" where
  "dict_comprehension fw [] d w = (d, w)"
| "dict_comprehension fw (p # ps) d w =
     (let (opt, w') = new_adam fw [p] w in dict_comprehension fw ps (d(p \<mapsto> opt)) w')"

definition build_optimizer_dict :: "('b, 'v, 's, 'l, 'e) torch \<Rightarrow> pid list \<Rightarrow> ('v, 's, 'e) world \<Rightarrow> ('v, 's, 'e) world" where
  "build_optimizer_dict fw parameters w =
     (let (d, w') = dict_comprehension fw parameters Map.empty w
      in emit fw DictAssign (w'\<lparr>optimizer_dict := d\<rparr>))"

text \<open>
  \<^verbatim>\<open>
  for p in model.parameters():
    p.register_post_accumulate_grad_hook(optimizer_hook)
  \<close>
\<close>

definition register_hooks :: "('b, 'v, 's, 'l, 'e) torch \<Rightarrow> pid list \<Rightarrow> ('v, 's, 'e) world \<Rightarrow> ('v, 's, 'e) world" where
  "register_hooks fw parameters w = fold (register_post_accumulate_grad_hook fw) parameters w"

subsection \<open>The measured windows\<close>

text \<open>
  Modelled from the spec: \<^verbatim>\<open>torch.cuda.memory._record_memory_history\<close> (section 3 and
  4.3). The log is created when recording starts; after recording stops nothing is
  appended to it.
\<close>

definition record_memory_history :: "('b, 'v, 's, 'l, 'e) torch \<Rightarrow> bool \<Rightarrow> ('v, 's, 'e) world \<Rightarrow> ('v, 's, 'e) world" where
  "record_memory_history fw enabled w =
     w\<lparr>recording := enabled,
       history := (if enabled then [] else history w),
       calls := calls w @ [RecordMemoryHistory enabled]\<rparr>"

text \<open>
  Modelled from the spec: \<^verbatim>\<open>torch.cuda.memory._snapshot()\<close> (section 4.3) returns the
  log as it is at the moment of the call.
\<close>

definition snapshot :: "('b, 'v, 's, 'l, 'e) torch \<Rightarrow> ('v, 's, 'e) world \<Rightarrow> 'e list \<times> ('v, 's, 'e) world" where
  "snapshot fw w = (history w, w\<lparr>calls := calls w @ [Snapshot]\<rparr>)"

text \<open>\<^verbatim>\<open>with open(name, "wb") as f: dump(s, f)\<close>\<close>

definition dump :: "('b, 'v, 's, 'l, 'e) torch \<Rightarrow> 'e list \<Rightarrow> string \<Rightarrow> ('v, 's, 'e) world \<Rightarrow> ('v, 's, 'e) world" where
  "dump fw s name w = w\<lparr>files := (files w)(name \<mapsto> s), calls := calls w @ [Dump name]\<rparr>"

text \<open>Lines 80 to 92: the window around the baseline iterations.\<close>

definition window_baseline :: "('b, 'v, 's, 'l, 'e) torch \<Rightarrow> oid \<Rightarrow> ('v, 's, 'e) world \<Rightarrow> ('v, 's, 'e) result" where
  "window_baseline fw opt w =
     (case repeat 3 (train fw opt) (record_memory_history fw True w) of
        Inl e \<Rightarrow> Inl e
      | Inr w1 \<Rightarrow>
          (let (s, w2) = snapshot fw w1;
               w3 = dump fw s ''snapshot.pickle'' w2
           in Inr (record_memory_history fw False w3)))"

text \<open>Lines 219 to 231: the window around the fused iterations.\<close>

definition window_fused :: "('b, 'v, 's, 'l, 'e) torch \<Rightarrow> ('v, 's, 'e) world \<Rightarrow> ('v, 's, 'e) result" where
  "window_fused fw w =
     (case repeat 3 (train' fw) (record_memory_history fw True w) of
        Inl e \<Rightarrow> Inl e
      | Inr w1 \<Rightarrow>
          (let (s, w2) = snapshot fw w1;
               w3 = dump fw s ''snapshot-opt-in-bwd.pickle'' w2
           in Inr (record_memory_history fw False w3)))"

subsection \<open>The script\<close>

text \<open>
  The module body, in its order: the shared optimizer (line 39), the first window,
  the dictionary (line 175), the registration of the hooks (lines 183 and 184),
  \<^verbatim>\<open>del optimizer\<close> (line 216), the second window. The model and its parameters
  exist in the initial store; \<open>parameters\<close> is \<^verbatim>\<open>model.parameters()\<close>.
\<close>

definition script :: "('b, 'v, 's, 'l, 'e) torch \<Rightarrow> pid list \<Rightarrow> ('v, 's, 'e) world \<Rightarrow> ('v, 's, 'e) result" where
  "script fw parameters w0 =
     (let (optimizer, w1) = new_adam fw parameters w0
      in case window_baseline fw optimizer w1 of
           Inl e \<Rightarrow> Inl e
         | Inr w2 \<Rightarrow>
             (let w3 = build_optimizer_dict fw parameters w2;
                  w4 = register_hooks fw parameters w3;
                  w5 = emit fw DelOptimizer w4
              in window_fused fw w5))"

subsection \<open>Auxiliary notions for the statements\<close>

text \<open>
  What one application of the update rule makes of a parameter: from its optimizer
  state (if it has one), its gradient (if it has one) and its value, the new state and
  the new value. Without gradient nothing changes.
\<close>

definition update_of :: "('b, 'v, 's, 'l, 'e) torch \<Rightarrow> 's option \<Rightarrow> 'v option \<Rightarrow> 'v \<Rightarrow> 's option \<times> 'v" where
  "update_of fw st g v =
     (case g of
        None \<Rightarrow> (st, v)
      | Some g' \<Rightarrow> (Some (fst (adam_update fw (state_of fw st) g' v)), snd (adam_update fw (state_of fw st) g' v)))"

text \<open>The store after the two statements of the hook, when both lookups find \<open>opt\<close>.\<close>

definition hooked :: "('b, 'v, 's, 'l, 'e) torch \<Rightarrow> pid \<Rightarrow> oid \<Rightarrow> ('v, 's, 'e) world \<Rightarrow> ('v, 's, 'e) world" where
  "hooked fw p opt w = zero_grad fw opt (emit fw (DictLookup p) (step fw opt (emit fw (DictLookup p) w)))"

text \<open>
  A parameter is owned when the dictionary has an optimizer for it and that optimizer
  was constructed over this parameter alone.
\<close>

definition owned :: "('v, 's, 'e) world \<Rightarrow> pid \<Rightarrow> bool" where
  "owned w p = (case optimizer_dict w p of None \<Rightarrow> False | Some opt \<Rightarrow> param_list (heap w opt) = [p])"

text \<open>
  The store is set up for hooks on the parameters \<open>ps\<close>: exactly these registrations,
  each once, and every one of these parameters owned. With \<open>ps = []\<close> this is the
  baseline, where no hook is registered.
\<close>

definition hooks_on :: "pid list \<Rightarrow> ('v, 's, 'e) world \<Rightarrow> bool" where
  "hooks_on ps w \<longleftrightarrow> distinct ps \<and> post_acc_hooks w = ps \<and> list_all (owned w) ps"

text \<open>What the engine makes of one leaf when the hooks are on \<open>ps\<close>.\<close>

definition deliver :: "('b, 'v, 's, 'l, 'e) torch \<Rightarrow> pid list \<Rightarrow> pid \<times> 'v \<Rightarrow> ('v, 's, 'e) world \<Rightarrow> ('v, 's, 'e) world" where
  "deliver fw ps d w =
     (if fst d \<in> set ps
      then hooked fw (fst d) (the (optimizer_dict w (fst d))) (emit fw (Hook (fst d)) (accumulate_grad fw (fst d) (snd d) w))
      else accumulate_grad fw (fst d) (snd d) w)"

text \<open>The operations of one leaf when the hooks are on \<open>ps\<close>.\<close>

definition leaf_calls :: "pid list \<Rightarrow> (pid \<rightharpoonup> oid) \<Rightarrow> pid \<Rightarrow> call list" where
  "leaf_calls ps d p =
     (if p \<in> set ps
      then [AccumulateGrad p, Hook p, DictLookup p, Step (the (d p)), DictLookup p, ZeroGrad (the (d p))]
      else [AccumulateGrad p])"

text \<open>The accumulator of a leaf after the engine has delivered (or not) a gradient to it.\<close>

definition acc_opt :: "('b, 'v, 's, 'l, 'e) torch \<Rightarrow> 'v option \<Rightarrow> 'v option \<Rightarrow> 'v option" where
  "acc_opt fw old g = (case g of None \<Rightarrow> old | Some g' \<Rightarrow> Some (accumulated fw old g'))"

text \<open>
  The gradients the engine accumulates into the leaf \<open>p\<close> during one pass, in its order
  (none when the pass does not reach \<open>p\<close>), and the accumulator after them.
\<close>

definition reached :: "(pid \<times> 'v) list \<Rightarrow> pid \<Rightarrow> 'v list" where
  "reached ds p = map snd (filter (\<lambda>d. fst d = p) ds)"

definition acc_all :: "('b, 'v, 's, 'l, 'e) torch \<Rightarrow> 'v option \<Rightarrow> 'v list \<Rightarrow> 'v option" where
  "acc_all fw old gs = fold (\<lambda>g a. Some (accumulated fw a g)) gs old"

text \<open>The batch, the loss and the leaves of the iteration that starts in the store \<open>w\<close>.\<close>

definition loss_of :: "('b, 'v, 's, 'l, 'e) torch \<Rightarrow> ('v, 's, 'e) world \<Rightarrow> 'l" where
  "loss_of fw w = model_forward fw (rand_stream fw (rng w)) (data w)"

definition grads_of :: "('b, 'v, 's, 'l, 'e) torch \<Rightarrow> ('v, 's, 'e) world \<Rightarrow> (pid \<times> 'v) list" where
  "grads_of fw w = leaf_grads fw (loss_of fw w)"

text \<open>The store of an iteration after the batch and the forward evaluation.\<close>

definition forwarded :: "('b, 'v, 's, 'l, 'e) torch \<Rightarrow> ('v, 's, 'e) world \<Rightarrow> ('v, 's, 'e) world" where
  "forwarded fw w = emit fw Forward (emit fw Rand (w\<lparr>rng := Suc (rng w)\<rparr>))"

text \<open>
  The events the allocator reports for the operations \<open>tr\<close> performed after the
  operations \<open>cs\<close>, and the log of a store after it has performed \<open>tr\<close>.
\<close>

fun logged :: "('b, 'v, 's, 'l, 'e) torch \<Rightarrow> call list \<Rightarrow> call list \<Rightarrow> 'e list" where
  "logged fw cs [] = []"
| "logged fw cs (c # tr) = allocator fw cs c @ logged fw (cs @ [c]) tr"

definition log_of :: "('b, 'v, 's, 'l, 'e) torch \<Rightarrow> ('v, 's, 'e) world \<Rightarrow> call list \<Rightarrow> 'e list" where
  "log_of fw w tr = history w @ (if recording w then logged fw (calls w) tr else [])"

text \<open>
  The operations of a training iteration. Calls of a hook and dictionary lookups
  belong to them only when hooks are registered.
\<close>

fun iteration_call :: "bool \<Rightarrow> call \<Rightarrow> bool" where
  "iteration_call h Rand = True"
| "iteration_call h Forward = True"
| "iteration_call h Backward = True"
| "iteration_call h (AccumulateGrad p) = True"
| "iteration_call h (Step opt) = True"
| "iteration_call h (ZeroGrad opt) = True"
| "iteration_call h (Hook p) = h"
| "iteration_call h (DictLookup p) = h"
| "iteration_call h c = False"

text \<open>The constructions of the comprehension over \<open>ps\<close>, when the next optimizer is \<open>n\<close>.\<close>

fun new_adam_calls :: "oid \<Rightarrow> pid list \<Rightarrow> call list" where
  "new_adam_calls n [] = []"
| "new_adam_calls n (p # ps) = NewAdam n [p] # new_adam_calls (Suc n) ps"

text \<open>The operations that read the dictionary: a call of the hook, a lookup.\<close>

fun uses_dict :: "call \<Rightarrow> bool" where
  "uses_dict (Hook p) = True"
| "uses_dict (DictLookup p) = True"
| "uses_dict c = False"

text \<open>
  A baseline store and a fused store agree on the parameters \<open>ps\<close>: the same values,
  the same position in the stream of batches, no gradient pending, and for every
  parameter the same optimizer state in the shared optimizer \<open>opt\<close> and in the
  parameter's own optimizer.
\<close>

definition agree :: "pid list \<Rightarrow> oid \<Rightarrow> ('v, 's, 'e) world \<Rightarrow> ('v, 's, 'e) world \<Rightarrow> bool" where
  "agree ps opt wb wh \<longleftrightarrow>
     data wb = data wh \<and> rng wb = rng wh \<and>
     list_all (\<lambda>p. grad wb p = None \<and> grad wh p = None \<and>
                 (case optimizer_dict wh p of
                    None \<Rightarrow> False
                  | Some o' \<Rightarrow> opt_state (heap wb opt) p = opt_state (heap wh o') p)) ps"

subsection \<open>A small instance\<close>

text \<open>
  A framework over integers with two leaves, used to evaluate the statements on a
  concrete input: the loss is the batch plus parameter 0 minus parameter 1, the engine
  reaches parameter 1 before parameter 0, and the update rule subtracts the gradient
  and counts its steps.
\<close>

definition toy_torch :: "(int, int, nat, int, call) torch" where
  "toy_torch =
     \<lparr>rand_stream = (\<lambda>k. int k + 1),
      model_forward = (\<lambda>b d. b + d 0 - d 1),
      leaf_grads = (\<lambda>l. [(1, l), (0, 2 * l)]),
      tensor_add = (+),
      adam_init = 0,
      adam_update = (\<lambda>st g v. (Suc st, v - g)),
      allocator = (\<lambda>cs c. [c])\<rparr>"

definition fresh :: "(int, nat, call) world" where
  "fresh =
     \<lparr>data = (\<lambda>p. 10),
      grad = (\<lambda>p. None),
      post_acc_hooks = [],
      heap = (\<lambda>x. \<lparr>param_list = [], opt_state = Map.empty\<rparr>),
      next_oid = 0,
      optimizer_dict = Map.empty,
      rng = 0,
      recording = False,
      history = [],
      files = Map.empty,
      calls = []\<rparr>"

definition fresh_baseline :: "(int, nat, call) world" where
  "fresh_baseline = snd (new_adam toy_torch [0, 1] fresh)"

definition fresh_fused :: "(int, nat, call) world" where
  "fresh_fused = register_hooks toy_torch [0, 1] (build_optimizer_dict toy_torch [0, 1] fresh)"

text \<open>
  The same with a third parameter, which the loss does not depend on: the engine of
  the instance never reaches parameter 2.
\<close>

definition fresh_baseline3 :: "(int, nat, call) world" where
  "fresh_baseline3 = snd (new_adam toy_torch [0, 1, 2] fresh)"

definition fresh_fused3 :: "(int, nat, call) world" where
  "fresh_fused3 = register_hooks toy_torch [0, 1, 2] (build_optimizer_dict toy_torch [0, 1, 2] fresh)"

subsection \<open>What each operation leaves alone\<close>

lemma emit_fields [simp]:
  "data (emit fw c w) = data w"
  "grad (emit fw c w) = grad w"
  "post_acc_hooks (emit fw c w) = post_acc_hooks w"
  "heap (emit fw c w) = heap w"
  "next_oid (emit fw c w) = next_oid w"
  "optimizer_dict (emit fw c w) = optimizer_dict w"
  "rng (emit fw c w) = rng w"
  "recording (emit fw c w) = recording w"
  "files (emit fw c w) = files w"
  "calls (emit fw c w) = calls w @ [c]"
  by (simp_all add: emit_def)

lemma step_param_fields [simp]:
  "grad (step_param fw opt p w) = grad w"
  "post_acc_hooks (step_param fw opt p w) = post_acc_hooks w"
  "next_oid (step_param fw opt p w) = next_oid w"
  "optimizer_dict (step_param fw opt p w) = optimizer_dict w"
  "rng (step_param fw opt p w) = rng w"
  "recording (step_param fw opt p w) = recording w"
  "history (step_param fw opt p w) = history w"
  "files (step_param fw opt p w) = files w"
  "calls (step_param fw opt p w) = calls w"
  "param_list (heap (step_param fw opt p w) x) = param_list (heap w x)"
  by (simp_all add: step_param_def Let_def split: option.splits)

lemma step_param_other_heap:
  "x \<noteq> opt \<Longrightarrow> heap (step_param fw opt p w) x = heap w x"
  by (simp add: step_param_def Let_def split: option.splits)

lemma step_param_other_data:
  "q \<noteq> p \<Longrightarrow> data (step_param fw opt p w) q = data w q"
  by (simp add: step_param_def Let_def split: option.splits)

lemma step_param_other_state:
  "q \<noteq> p \<Longrightarrow> opt_state (heap (step_param fw opt p w) x) q = opt_state (heap w x) q"
  by (simp add: step_param_def Let_def split: option.splits)

lemma step_param_data:
  "data (step_param fw opt p w) p = snd (update_of fw (opt_state (heap w opt) p) (grad w p) (data w p))"
  by (simp add: step_param_def update_of_def Let_def split: option.splits)

lemma step_param_state:
  "opt_state (heap (step_param fw opt p w) opt) p = fst (update_of fw (opt_state (heap w opt) p) (grad w p) (data w p))"
  by (simp add: step_param_def update_of_def Let_def split: option.splits)

lemma fold_step_param_fields [simp]:
  "grad (fold (step_param fw opt) ps w) = grad w"
  "post_acc_hooks (fold (step_param fw opt) ps w) = post_acc_hooks w"
  "next_oid (fold (step_param fw opt) ps w) = next_oid w"
  "optimizer_dict (fold (step_param fw opt) ps w) = optimizer_dict w"
  "rng (fold (step_param fw opt) ps w) = rng w"
  "recording (fold (step_param fw opt) ps w) = recording w"
  "history (fold (step_param fw opt) ps w) = history w"
  "files (fold (step_param fw opt) ps w) = files w"
  "calls (fold (step_param fw opt) ps w) = calls w"
  "param_list (heap (fold (step_param fw opt) ps w) x) = param_list (heap w x)"
  by (induction ps arbitrary: w; simp)+

lemma fold_step_param_other_heap:
  "x \<noteq> opt \<Longrightarrow> heap (fold (step_param fw opt) ps w) x = heap w x"
  by (induction ps arbitrary: w) (simp_all add: step_param_other_heap)

lemma fold_step_param_other_data:
  "q \<notin> set ps \<Longrightarrow> data (fold (step_param fw opt) ps w) q = data w q"
  by (induction ps arbitrary: w) (simp_all add: step_param_other_data)

lemma fold_step_param_other_state:
  "q \<notin> set ps \<Longrightarrow> opt_state (heap (fold (step_param fw opt) ps w) x) q = opt_state (heap w x) q"
  by (induction ps arbitrary: w) (simp_all add: step_param_other_state)

lemma fold_step_param_data:
  "distinct ps \<Longrightarrow> q \<in> set ps \<Longrightarrow>
   data (fold (step_param fw opt) ps w) q = snd (update_of fw (opt_state (heap w opt) q) (grad w q) (data w q))"
proof (induction ps arbitrary: w)
  case Nil
  then show ?case by simp
next
  case (Cons p ps)
  show ?case
  proof (cases "q = p")
    case True
    with Cons.prems have "q \<notin> set ps" by simp
    then show ?thesis
      using True by (simp add: fold_step_param_other_data step_param_data)
  next
    case False
    with Cons.prems have q: "q \<in> set ps" and d: "distinct ps" by simp_all
    show ?thesis
      using Cons.IH [OF d q, of "step_param fw opt p w"] False
      by (simp add: step_param_other_data step_param_other_state)
  qed
qed

lemma fold_step_param_state:
  "distinct ps \<Longrightarrow> q \<in> set ps \<Longrightarrow>
   opt_state (heap (fold (step_param fw opt) ps w) opt) q = fst (update_of fw (opt_state (heap w opt) q) (grad w q) (data w q))"
proof (induction ps arbitrary: w)
  case Nil
  then show ?case by simp
next
  case (Cons p ps)
  show ?case
  proof (cases "q = p")
    case True
    with Cons.prems have "q \<notin> set ps" by simp
    then show ?thesis
      using True by (simp add: fold_step_param_other_state step_param_state)
  next
    case False
    with Cons.prems have q: "q \<in> set ps" and d: "distinct ps" by simp_all
    show ?thesis
      using Cons.IH [OF d q, of "step_param fw opt p w"] False
      by (simp add: step_param_other_data step_param_other_state)
  qed
qed

lemma step_fields [simp]:
  "grad (step fw opt w) = grad w"
  "post_acc_hooks (step fw opt w) = post_acc_hooks w"
  "next_oid (step fw opt w) = next_oid w"
  "optimizer_dict (step fw opt w) = optimizer_dict w"
  "rng (step fw opt w) = rng w"
  "recording (step fw opt w) = recording w"
  "files (step fw opt w) = files w"
  "calls (step fw opt w) = calls w @ [Step opt]"
  "param_list (heap (step fw opt w) x) = param_list (heap w x)"
  by (simp_all add: step_def)

lemma step_other_heap: "x \<noteq> opt \<Longrightarrow> heap (step fw opt w) x = heap w x"
  by (simp add: step_def fold_step_param_other_heap)

lemma step_other_data: "q \<notin> set (param_list (heap w opt)) \<Longrightarrow> data (step fw opt w) q = data w q"
  by (simp add: step_def fold_step_param_other_data)

lemma step_other_state:
  "q \<notin> set (param_list (heap w opt)) \<Longrightarrow> opt_state (heap (step fw opt w) x) q = opt_state (heap w x) q"
  by (simp add: step_def fold_step_param_other_state)

lemma step_data:
  "distinct (param_list (heap w opt)) \<Longrightarrow> q \<in> set (param_list (heap w opt)) \<Longrightarrow>
   data (step fw opt w) q = snd (update_of fw (opt_state (heap w opt) q) (grad w q) (data w q))"
  by (simp add: step_def fold_step_param_data)

lemma step_state:
  "distinct (param_list (heap w opt)) \<Longrightarrow> q \<in> set (param_list (heap w opt)) \<Longrightarrow>
   opt_state (heap (step fw opt w) opt) q = fst (update_of fw (opt_state (heap w opt) q) (grad w q) (data w q))"
  by (simp add: step_def fold_step_param_state)

lemma fold_clear_fields [simp]:
  "data (fold (\<lambda>p w'. w'\<lparr>grad := (grad w')(p := None)\<rparr>) ps w) = data w"
  "post_acc_hooks (fold (\<lambda>p w'. w'\<lparr>grad := (grad w')(p := None)\<rparr>) ps w) = post_acc_hooks w"
  "heap (fold (\<lambda>p w'. w'\<lparr>grad := (grad w')(p := None)\<rparr>) ps w) = heap w"
  "next_oid (fold (\<lambda>p w'. w'\<lparr>grad := (grad w')(p := None)\<rparr>) ps w) = next_oid w"
  "optimizer_dict (fold (\<lambda>p w'. w'\<lparr>grad := (grad w')(p := None)\<rparr>) ps w) = optimizer_dict w"
  "rng (fold (\<lambda>p w'. w'\<lparr>grad := (grad w')(p := None)\<rparr>) ps w) = rng w"
  "recording (fold (\<lambda>p w'. w'\<lparr>grad := (grad w')(p := None)\<rparr>) ps w) = recording w"
  "history (fold (\<lambda>p w'. w'\<lparr>grad := (grad w')(p := None)\<rparr>) ps w) = history w"
  "files (fold (\<lambda>p w'. w'\<lparr>grad := (grad w')(p := None)\<rparr>) ps w) = files w"
  "calls (fold (\<lambda>p w'. w'\<lparr>grad := (grad w')(p := None)\<rparr>) ps w) = calls w"
  by (induction ps arbitrary: w; simp)+

lemma fold_clear_grad:
  "grad (fold (\<lambda>p w'. w'\<lparr>grad := (grad w')(p := None)\<rparr>) ps w) q = (if q \<in> set ps then None else grad w q)"
  by (induction ps arbitrary: w) auto

lemma zero_grad_fields [simp]:
  "data (zero_grad fw opt w) = data w"
  "post_acc_hooks (zero_grad fw opt w) = post_acc_hooks w"
  "heap (zero_grad fw opt w) = heap w"
  "next_oid (zero_grad fw opt w) = next_oid w"
  "optimizer_dict (zero_grad fw opt w) = optimizer_dict w"
  "rng (zero_grad fw opt w) = rng w"
  "recording (zero_grad fw opt w) = recording w"
  "files (zero_grad fw opt w) = files w"
  "calls (zero_grad fw opt w) = calls w @ [ZeroGrad opt]"
  by (simp_all add: zero_grad_def)

lemma zero_grad_grad:
  "grad (zero_grad fw opt w) q = (if q \<in> set (param_list (heap w opt)) then None else grad w q)"
  by (simp add: zero_grad_def fold_clear_grad)

lemma accumulate_grad_fields [simp]:
  "data (accumulate_grad fw p g w) = data w"
  "post_acc_hooks (accumulate_grad fw p g w) = post_acc_hooks w"
  "heap (accumulate_grad fw p g w) = heap w"
  "next_oid (accumulate_grad fw p g w) = next_oid w"
  "optimizer_dict (accumulate_grad fw p g w) = optimizer_dict w"
  "rng (accumulate_grad fw p g w) = rng w"
  "recording (accumulate_grad fw p g w) = recording w"
  "files (accumulate_grad fw p g w) = files w"
  "calls (accumulate_grad fw p g w) = calls w @ [AccumulateGrad p]"
  "grad (accumulate_grad fw p g w) = (grad w)(p := Some (accumulated fw (grad w p) g))"
  by (simp_all add: accumulate_grad_def)

subsection \<open>The hook on a parameter that has its optimizer\<close>

lemma optimizer_hook_present:
  "optimizer_dict w p = Some opt \<Longrightarrow>
   optimizer_hook fw p w =
     Inr (hooked fw p opt w)"
  by (simp add: optimizer_hook_def dict_getitem_def hooked_def Let_def)

lemma hooked_fields [simp]:
  "post_acc_hooks (hooked fw p opt w) = post_acc_hooks w"
  "next_oid (hooked fw p opt w) = next_oid w"
  "optimizer_dict (hooked fw p opt w) = optimizer_dict w"
  "rng (hooked fw p opt w) = rng w"
  "recording (hooked fw p opt w) = recording w"
  "files (hooked fw p opt w) = files w"
  "calls (hooked fw p opt w) = calls w @ [DictLookup p, Step opt, DictLookup p, ZeroGrad opt]"
  "param_list (heap (hooked fw p opt w) x) = param_list (heap w x)"
  by (simp_all add: hooked_def)

lemma hooked_other_heap: "x \<noteq> opt \<Longrightarrow> heap (hooked fw p opt w) x = heap w x"
  by (simp add: hooked_def step_other_heap)

lemma hooked_grad:
  "param_list (heap w opt) = [p] \<Longrightarrow> grad (hooked fw p opt w) = (grad w)(p := None)"
  by (auto simp: hooked_def zero_grad_grad fun_eq_iff)

lemma hooked_data:
  assumes "param_list (heap w opt) = [p]"
  shows "data (hooked fw p opt w) =
           (data w)(p := snd (update_of fw (opt_state (heap w opt) p) (grad w p) (data w p)))"
proof
  fix q
  show "data (hooked fw p opt w) q =
          ((data w)(p := snd (update_of fw (opt_state (heap w opt) p) (grad w p) (data w p)))) q"
  proof (cases "q = p")
    case True
    then show ?thesis
      using assms step_data [of "emit fw (DictLookup p) w" opt p fw]
      by (simp add: hooked_def)
  next
    case False
    then show ?thesis
      using assms step_other_data [of q "emit fw (DictLookup p) w" opt fw]
      by (simp add: hooked_def)
  qed
qed

lemma hooked_state:
  assumes "param_list (heap w opt) = [p]"
  shows "opt_state (heap (hooked fw p opt w) opt) =
           (opt_state (heap w opt))(p := fst (update_of fw (opt_state (heap w opt) p) (grad w p) (data w p)))"
proof
  fix q
  show "opt_state (heap (hooked fw p opt w) opt) q =
          ((opt_state (heap w opt))(p := fst (update_of fw (opt_state (heap w opt) p) (grad w p) (data w p)))) q"
  proof (cases "q = p")
    case True
    then show ?thesis
      using assms step_state [of "emit fw (DictLookup p) w" opt p fw]
      by (simp add: hooked_def)
  next
    case False
    then show ?thesis
      using assms step_other_state [of q "emit fw (DictLookup p) w" opt fw opt]
      by (simp add: hooked_def)
  qed
qed

subsection \<open>The engine when the hooks are on the parameters\<close>

lemma run_hooks_absent: "p \<notin> set hs \<Longrightarrow> run_hooks fw p hs w = Inr w"
  by (induction hs arbitrary: w) auto

lemma run_hooks_once:
  "distinct hs \<Longrightarrow> p \<in> set hs \<Longrightarrow> optimizer_dict w p = Some opt \<Longrightarrow>
   run_hooks fw p hs w = Inr (hooked fw p opt (emit fw (Hook p) w))"
proof (induction hs arbitrary: w)
  case Nil
  then show ?case by simp
next
  case (Cons h hs)
  show ?case
  proof (cases "h = p")
    case True
    with Cons.prems have "p \<notin> set hs" by auto
    then show ?thesis
      using True Cons.prems(3) by (simp add: optimizer_hook_present run_hooks_absent)
  next
    case False
    then show ?thesis using Cons by auto
  qed
qed

lemma owned_Some: "owned w p \<Longrightarrow> \<exists>opt. optimizer_dict w p = Some opt \<and> param_list (heap w opt) = [p]"
  by (auto simp: owned_def split: option.splits)

lemma deliver_fields [simp]:
  "post_acc_hooks (deliver fw ps d w) = post_acc_hooks w"
  "next_oid (deliver fw ps d w) = next_oid w"
  "optimizer_dict (deliver fw ps d w) = optimizer_dict w"
  "rng (deliver fw ps d w) = rng w"
  "recording (deliver fw ps d w) = recording w"
  "files (deliver fw ps d w) = files w"
  "param_list (heap (deliver fw ps d w) x) = param_list (heap w x)"
  "calls (deliver fw ps d w) = calls w @ leaf_calls ps (optimizer_dict w) (fst d)"
  by (simp_all add: deliver_def leaf_calls_def)

lemma owned_deliver [simp]: "owned (deliver fw ps d w) q = owned w q"
  by (simp add: owned_def split: option.splits)

lemma hooks_on_deliver [simp]: "hooks_on ps (deliver fw ps' d w) = hooks_on ps w"
  by (simp add: hooks_on_def list_all_iff)

lemma fold_deliver_fields [simp]:
  "post_acc_hooks (fold (deliver fw ps) ds w) = post_acc_hooks w"
  "next_oid (fold (deliver fw ps) ds w) = next_oid w"
  "optimizer_dict (fold (deliver fw ps) ds w) = optimizer_dict w"
  "rng (fold (deliver fw ps) ds w) = rng w"
  "recording (fold (deliver fw ps) ds w) = recording w"
  "files (fold (deliver fw ps) ds w) = files w"
  "param_list (heap (fold (deliver fw ps) ds w) x) = param_list (heap w x)"
  by (induction ds arbitrary: w; simp)+

lemma fold_deliver_calls:
  "calls (fold (deliver fw ps) ds w) = calls w @ concat (map (\<lambda>d. leaf_calls ps (optimizer_dict w) (fst d)) ds)"
  by (induction ds arbitrary: w) simp_all

lemma owned_fold_deliver [simp]: "owned (fold (deliver fw ps) ds w) q = owned w q"
  by (simp add: owned_def split: option.splits)

lemma hooks_on_fold_deliver [simp]: "hooks_on ps (fold (deliver fw ps') ds w) = hooks_on ps w"
  by (simp add: hooks_on_def list_all_iff)

lemma engine_deliver:
  "hooks_on ps w \<Longrightarrow> engine fw ds w = Inr (fold (deliver fw ps) ds w)"
proof (induction ds arbitrary: w)
  case Nil
  then show ?case by simp
next
  case (Cons d ds)
  obtain p g where d: "d = (p, g)" by (cases d)
  have hs: "post_acc_hooks w = ps" and dist: "distinct ps"
    using Cons.prems by (simp_all add: hooks_on_def)
  have one: "run_hooks fw p (post_acc_hooks w) (accumulate_grad fw p g w) = Inr (deliver fw ps d w)"
  proof (cases "p \<in> set ps")
    case True
    then have "owned w p" using Cons.prems by (simp add: hooks_on_def list_all_iff)
    then obtain opt where "optimizer_dict w p = Some opt" using owned_Some by blast
    then show ?thesis
      using True dist hs d
        run_hooks_once [of ps p "accumulate_grad fw p g w" opt fw]
      by (simp add: deliver_def)
  next
    case False
    then show ?thesis using hs d by (simp add: run_hooks_absent deliver_def)
  qed
  have "hooks_on ps (deliver fw ps d w)" using Cons.prems by simp
  then show ?case using one d Cons.IH by simp
qed

text \<open>One leaf, seen from a parameter \<open>q\<close>.\<close>

lemma deliver_other_data:
  "fst d \<in> set ps \<longrightarrow> owned w (fst d) \<Longrightarrow> q \<noteq> fst d \<Longrightarrow> data (deliver fw ps d w) q = data w q"
  by (auto simp: deliver_def hooked_data dest!: owned_Some)

lemma deliver_other_grad:
  "fst d \<in> set ps \<longrightarrow> owned w (fst d) \<Longrightarrow> q \<noteq> fst d \<Longrightarrow> grad (deliver fw ps d w) q = grad w q"
  by (auto simp: deliver_def hooked_grad dest!: owned_Some)

lemma deliver_other_state:
  assumes "fst d \<in> set ps \<longrightarrow> owned w (fst d)" and "q \<noteq> fst d"
  shows "opt_state (heap (deliver fw ps d w) x) q = opt_state (heap w x) q"
proof (cases "fst d \<in> set ps")
  case True
  then obtain opt where o: "optimizer_dict w (fst d) = Some opt" "param_list (heap w opt) = [fst d]"
    using assms(1) owned_Some by blast
  show ?thesis
  proof (cases "x = opt")
    case True
    then show ?thesis
      using o assms(2) \<open>fst d \<in> set ps\<close> by (simp add: deliver_def hooked_state)
  next
    case False
    then show ?thesis
      using o \<open>fst d \<in> set ps\<close> by (simp add: deliver_def hooked_other_heap)
  qed
next
  case False
  then show ?thesis by (simp add: deliver_def)
qed

lemma deliver_hooked_leaf:
  assumes "p \<in> set ps" and "optimizer_dict w p = Some opt" and "param_list (heap w opt) = [p]"
  shows "data (deliver fw ps (p, g) w) p =
           snd (update_of fw (opt_state (heap w opt) p) (Some (accumulated fw (grad w p) g)) (data w p))"
    and "opt_state (heap (deliver fw ps (p, g) w) opt) p =
           fst (update_of fw (opt_state (heap w opt) p) (Some (accumulated fw (grad w p) g)) (data w p))"
    and "grad (deliver fw ps (p, g) w) p = None"
  using assms by (simp_all add: deliver_def hooked_data hooked_state hooked_grad)

lemma deliver_plain_leaf:
  "p \<notin> set ps \<Longrightarrow> grad (deliver fw ps (p, g) w) p = Some (accumulated fw (grad w p) g)"
  "p \<notin> set ps \<Longrightarrow> data (deliver fw ps (p, g) w) = data w"
  "p \<notin> set ps \<Longrightarrow> heap (deliver fw ps (p, g) w) = heap w"
  by (simp_all add: deliver_def)

lemma update_of_None [simp]: "update_of fw st None v = (st, v)"
  by (simp add: update_of_def)

lemma acc_opt_simps [simp]:
  "acc_opt fw old None = old"
  "acc_opt fw old (Some g) = Some (accumulated fw old g)"
  by (simp_all add: acc_opt_def)

lemma map_of_absent: "q \<notin> fst ` set ds \<Longrightarrow> map_of ds q = None"
  by (simp add: map_of_eq_None_iff)

lemma fold_deliver_hooked:
  assumes "list_all (owned w) ps" and "distinct (map fst ds)"
    and "q \<in> set ps" and "optimizer_dict w q = Some opt"
  shows "data (fold (deliver fw ps) ds w) q =
           snd (update_of fw (opt_state (heap w opt) q)
                  (map_option (accumulated fw (grad w q)) (map_of ds q)) (data w q))
       \<and> opt_state (heap (fold (deliver fw ps) ds w) opt) q =
           fst (update_of fw (opt_state (heap w opt) q)
                  (map_option (accumulated fw (grad w q)) (map_of ds q)) (data w q))
       \<and> grad (fold (deliver fw ps) ds w) q = (if map_of ds q = None then grad w q else None)"
  using assms
proof (induction ds arbitrary: w)
  case Nil
  then show ?case by simp
next
  case (Cons d ds)
  obtain p g where d: "d = (p, g)" by (cases d)
  let ?w1 = "deliver fw ps d w"
  have own: "\<And>x. x \<in> set ps \<Longrightarrow> owned w x"
    using Cons.prems(1) by (simp add: list_all_iff)
  have pre: "list_all (owned ?w1) ps" "distinct (map fst ds)" "optimizer_dict ?w1 q = Some opt"
    using Cons.prems by (simp_all add: list_all_iff)
  note IH = Cons.IH [OF pre(1) pre(2) Cons.prems(3) pre(3)]
  show ?case
  proof (cases "p = q")
    case True
    have absent: "map_of ds q = None"
      using Cons.prems(2) d True by (simp add: map_of_absent)
    have pl: "param_list (heap w opt) = [q]"
      using own [OF Cons.prems(3)] Cons.prems(4) by (simp add: owned_def)
    show ?thesis
      using IH absent True d
        deliver_hooked_leaf [OF Cons.prems(3) Cons.prems(4) pl, of fw g]
      by simp
  next
    case False
    have side: "fst d \<in> set ps \<longrightarrow> owned w (fst d)" using own by blast
    have ne: "q \<noteq> fst d" using False d by simp
    show ?thesis
      using IH False d
        deliver_other_data [OF side ne, of fw]
        deliver_other_grad [OF side ne, of fw]
        deliver_other_state [OF side ne, of fw opt]
      by simp
  qed
qed

lemma fold_deliver_plain:
  assumes "list_all (owned w) ps" and "distinct (map fst ds)" and "q \<notin> set ps"
  shows "data (fold (deliver fw ps) ds w) q = data w q
       \<and> (\<forall>x. opt_state (heap (fold (deliver fw ps) ds w) x) q = opt_state (heap w x) q)
       \<and> grad (fold (deliver fw ps) ds w) q = acc_opt fw (grad w q) (map_of ds q)"
  using assms
proof (induction ds arbitrary: w)
  case Nil
  then show ?case by simp
next
  case (Cons d ds)
  obtain p g where d: "d = (p, g)" by (cases d)
  let ?w1 = "deliver fw ps d w"
  have own: "\<And>x. x \<in> set ps \<Longrightarrow> owned w x"
    using Cons.prems(1) by (simp add: list_all_iff)
  have pre: "list_all (owned ?w1) ps" "distinct (map fst ds)"
    using Cons.prems by (simp_all add: list_all_iff)
  note IH = Cons.IH [OF pre(1) pre(2) Cons.prems(3)]
  show ?case
  proof (cases "p = q")
    case True
    have absent: "map_of ds q = None"
      using Cons.prems(2) d True by (simp add: map_of_absent)
    have "p \<notin> set ps" using True Cons.prems(3) by simp
    then show ?thesis
      using IH absent True d deliver_plain_leaf [of p ps fw g w] by simp
  next
    case False
    have side: "fst d \<in> set ps \<longrightarrow> owned w (fst d)" using own by blast
    have ne: "q \<noteq> fst d" using False d by simp
    show ?thesis
      using IH False d
        deliver_other_data [OF side ne, of fw]
        deliver_other_grad [OF side ne, of fw]
        deliver_other_state [OF side ne, of fw]
      by simp
  qed
qed

subsection \<open>One iteration\<close>

lemma forwarded_fields [simp]:
  "data (forwarded fw w) = data w"
  "grad (forwarded fw w) = grad w"
  "post_acc_hooks (forwarded fw w) = post_acc_hooks w"
  "heap (forwarded fw w) = heap w"
  "next_oid (forwarded fw w) = next_oid w"
  "optimizer_dict (forwarded fw w) = optimizer_dict w"
  "rng (forwarded fw w) = Suc (rng w)"
  "recording (forwarded fw w) = recording w"
  "files (forwarded fw w) = files w"
  "calls (forwarded fw w) = calls w @ [Rand, Forward]"
  by (simp_all add: forwarded_def)

lemma owned_forwarded [simp]: "owned (forwarded fw w) q = owned w q"
  by (simp add: owned_def split: option.splits)

lemma owned_emit [simp]: "owned (emit fw c w) q = owned w q"
  by (simp add: owned_def split: option.splits)

lemma hooks_on_emit [simp]: "hooks_on ps (emit fw c w) = hooks_on ps w"
  by (simp add: hooks_on_def list_all_iff)

lemma hooks_on_forwarded [simp]: "hooks_on ps (forwarded fw w) = hooks_on ps w"
  by (simp add: hooks_on_def list_all_iff)

lemma backward_deliver:
  "hooks_on ps w \<Longrightarrow>
   backward fw loss w = Inr (fold (deliver fw ps) (leaf_grads fw loss) (emit fw Backward w))"
  by (simp add: backward_def engine_deliver [of ps])

lemma train'_backward:
  "train' fw w = backward fw (loss_of fw w) (forwarded fw w)"
  by (simp add: train'_def rand_cuda_def forward_def loss_of_def forwarded_def)

lemma train_backward:
  "train fw opt w =
     (case backward fw (loss_of fw w) (forwarded fw w) of
        Inl e \<Rightarrow> Inl e
      | Inr w3 \<Rightarrow> Inr (zero_grad fw opt (step fw opt w3)))"
  by (simp add: train_def rand_cuda_def forward_def loss_of_def forwarded_def)

text \<open>The store after the backward pass of the iteration that starts in \<open>w\<close>.\<close>

lemma train'_deliver:
  "hooks_on ps w \<Longrightarrow>
   train' fw w = Inr (fold (deliver fw ps) (grads_of fw w) (emit fw Backward (forwarded fw w)))"
  by (simp add: train'_backward backward_deliver [of ps] grads_of_def)

lemma train_deliver:
  "hooks_on ps w \<Longrightarrow>
   train fw opt w =
     Inr (zero_grad fw opt (step fw opt
            (fold (deliver fw ps) (grads_of fw w) (emit fw Backward (forwarded fw w)))))"
  by (simp add: train_backward backward_deliver [of ps] grads_of_def)

lemma fold_deliver_unhooked_data:
  "list_all (owned w) ps \<Longrightarrow> q \<notin> set ps \<Longrightarrow> data (fold (deliver fw ps) ds w) q = data w q"
proof (induction ds arbitrary: w)
  case Nil
  then show ?case by simp
next
  case (Cons d ds)
  have own: "\<And>x. x \<in> set ps \<Longrightarrow> owned w x"
    using Cons.prems(1) by (simp add: list_all_iff)
  have pre: "list_all (owned (deliver fw ps d w)) ps"
    using Cons.prems by (simp add: list_all_iff)
  have "data (deliver fw ps d w) q = data w q"
  proof (cases "fst d \<in> set ps")
    case True
    then have "q \<noteq> fst d" using Cons.prems(2) by auto
    moreover have "fst d \<in> set ps \<longrightarrow> owned w (fst d)" using own by blast
    ultimately show ?thesis by (rule deliver_other_data [rotated])
  next
    case False
    then show ?thesis by (simp add: deliver_def)
  qed
  then show ?case using Cons.IH [OF pre Cons.prems(2)] by simp
qed

subsection \<open>Building the dictionary\<close>

lemma new_adam_fields [simp]:
  "fst (new_adam fw ps w) = next_oid w"
  "data (snd (new_adam fw ps w)) = data w"
  "grad (snd (new_adam fw ps w)) = grad w"
  "post_acc_hooks (snd (new_adam fw ps w)) = post_acc_hooks w"
  "heap (snd (new_adam fw ps w)) = (heap w)(next_oid w := \<lparr>param_list = ps, opt_state = Map.empty\<rparr>)"
  "next_oid (snd (new_adam fw ps w)) = Suc (next_oid w)"
  "optimizer_dict (snd (new_adam fw ps w)) = optimizer_dict w"
  "rng (snd (new_adam fw ps w)) = rng w"
  "recording (snd (new_adam fw ps w)) = recording w"
  "files (snd (new_adam fw ps w)) = files w"
  "calls (snd (new_adam fw ps w)) = calls w @ [NewAdam (next_oid w) ps]"
  by (simp_all add: new_adam_def)

lemma dict_comprehension_Cons:
  "dict_comprehension fw (p # ps) d w =
     dict_comprehension fw ps (d(p \<mapsto> next_oid w)) (snd (new_adam fw [p] w))"
  by (simp add: split_def)

lemma dict_comprehension_fields [simp]:
  "data (snd (dict_comprehension fw ps d w)) = data w"
  "grad (snd (dict_comprehension fw ps d w)) = grad w"
  "post_acc_hooks (snd (dict_comprehension fw ps d w)) = post_acc_hooks w"
  "optimizer_dict (snd (dict_comprehension fw ps d w)) = optimizer_dict w"
  "rng (snd (dict_comprehension fw ps d w)) = rng w"
  "recording (snd (dict_comprehension fw ps d w)) = recording w"
  "files (snd (dict_comprehension fw ps d w)) = files w"
  by (induction ps arbitrary: d w; simp add: dict_comprehension_Cons del: dict_comprehension.simps(2))+

lemma dict_comprehension_dom:
  "dom (fst (dict_comprehension fw ps d w)) = dom d \<union> set ps"
  by (induction ps arbitrary: d w) (auto simp: dict_comprehension_Cons simp del: dict_comprehension.simps(2))

text \<open>
  Every entry made so far points to an optimizer allocated so far, and that optimizer
  was constructed over the key alone.
\<close>

lemma dict_comprehension_owns:
  assumes "\<And>p opt. d p = Some opt \<Longrightarrow> opt < next_oid w \<and> param_list (heap w opt) = [p]"
    and "fst (dict_comprehension fw ps d w) q = Some x"
  shows "param_list (heap (snd (dict_comprehension fw ps d w)) x) = [q]"
  using assms
proof (induction ps arbitrary: d w)
  case Nil
  then show ?case by simp
next
  case (Cons p ps)
  let ?d = "d(p \<mapsto> next_oid w)" and ?w = "snd (new_adam fw [p] w)"
  have inv: "\<And>r opt. ?d r = Some opt \<Longrightarrow> opt < next_oid ?w \<and> param_list (heap ?w opt) = [r]"
  proof -
    fix r opt
    assume a: "?d r = Some opt"
    show "opt < next_oid ?w \<and> param_list (heap ?w opt) = [r]"
    proof (cases "r = p")
      case True
      then show ?thesis using a by simp
    next
      case False
      then have "d r = Some opt" using a by simp
      then have "opt < next_oid w \<and> param_list (heap w opt) = [r]" by (rule Cons.prems(1))
      then show ?thesis by simp
    qed
  qed
  have found: "fst (dict_comprehension fw ps ?d ?w) q = Some x"
    using Cons.prems(2) by (simp add: dict_comprehension_Cons del: dict_comprehension.simps(2))
  have "param_list (heap (snd (dict_comprehension fw ps ?d ?w)) x) = [q]"
    by (rule Cons.IH [of ?d ?w, OF inv found])
  then show ?case
    by (simp only: dict_comprehension_Cons)
qed

lemma build_optimizer_dict_fields [simp]:
  "data (build_optimizer_dict fw ps w) = data w"
  "grad (build_optimizer_dict fw ps w) = grad w"
  "post_acc_hooks (build_optimizer_dict fw ps w) = post_acc_hooks w"
  "rng (build_optimizer_dict fw ps w) = rng w"
  "recording (build_optimizer_dict fw ps w) = recording w"
  "files (build_optimizer_dict fw ps w) = files w"
  "optimizer_dict (build_optimizer_dict fw ps w) = fst (dict_comprehension fw ps Map.empty w)"
  "heap (build_optimizer_dict fw ps w) = heap (snd (dict_comprehension fw ps Map.empty w))"
  by (simp_all add: build_optimizer_dict_def split_def Let_def)

lemma build_optimizer_dict_dom: "dom (optimizer_dict (build_optimizer_dict fw ps w)) = set ps"
  by (simp add: dict_comprehension_dom)

lemma build_optimizer_dict_owns:
  "optimizer_dict (build_optimizer_dict fw ps w) p = Some opt \<Longrightarrow>
   param_list (heap (build_optimizer_dict fw ps w) opt) = [p]"
  using dict_comprehension_owns [of Map.empty w fw ps p opt] by simp

lemma build_optimizer_dict_owned:
  "p \<in> set ps \<Longrightarrow> owned (build_optimizer_dict fw ps w) p"
proof -
  assume "p \<in> set ps"
  then have "p \<in> dom (optimizer_dict (build_optimizer_dict fw ps w))"
    by (simp only: build_optimizer_dict_dom)
  then obtain opt where o: "optimizer_dict (build_optimizer_dict fw ps w) p = Some opt" by blast
  from build_optimizer_dict_owns [OF o] o show ?thesis
    by (simp add: owned_def del: build_optimizer_dict_fields)
qed

lemma register_hook_fields [simp]:
  "data (register_post_accumulate_grad_hook fw p w) = data w"
  "grad (register_post_accumulate_grad_hook fw p w) = grad w"
  "post_acc_hooks (register_post_accumulate_grad_hook fw p w) = post_acc_hooks w @ [p]"
  "heap (register_post_accumulate_grad_hook fw p w) = heap w"
  "next_oid (register_post_accumulate_grad_hook fw p w) = next_oid w"
  "optimizer_dict (register_post_accumulate_grad_hook fw p w) = optimizer_dict w"
  "rng (register_post_accumulate_grad_hook fw p w) = rng w"
  "recording (register_post_accumulate_grad_hook fw p w) = recording w"
  "files (register_post_accumulate_grad_hook fw p w) = files w"
  "calls (register_post_accumulate_grad_hook fw p w) = calls w @ [RegisterHook p]"
  by (simp_all add: register_post_accumulate_grad_hook_def)

lemma register_hooks_fields [simp]:
  "data (register_hooks fw ps w) = data w"
  "grad (register_hooks fw ps w) = grad w"
  "post_acc_hooks (register_hooks fw ps w) = post_acc_hooks w @ ps"
  "heap (register_hooks fw ps w) = heap w"
  "next_oid (register_hooks fw ps w) = next_oid w"
  "optimizer_dict (register_hooks fw ps w) = optimizer_dict w"
  "rng (register_hooks fw ps w) = rng w"
  "recording (register_hooks fw ps w) = recording w"
  "files (register_hooks fw ps w) = files w"
  "calls (register_hooks fw ps w) = calls w @ map RegisterHook ps"
  unfolding register_hooks_def by (induction ps arbitrary: w; simp)+

lemma owned_register_hooks [simp]: "owned (register_hooks fw ps w) q = owned w q"
  by (simp add: owned_def split: option.splits)

text \<open>The setup of the script (lines 175 to 184) puts the hooks on the parameters.\<close>

lemma hooks_on_setup:
  "distinct ps \<Longrightarrow> post_acc_hooks w = [] \<Longrightarrow>
   hooks_on ps (register_hooks fw ps (build_optimizer_dict fw ps w))"
  by (simp add: hooks_on_def list_all_iff build_optimizer_dict_owned del: build_optimizer_dict_fields(7,8))

lemma leaf_calls_Nil: "concat (map (\<lambda>x. leaf_calls [] d (fst x)) ds) = map (\<lambda>x. AccumulateGrad (fst x)) ds"
  by (induction ds) (simp_all add: leaf_calls_def)

lemma hooks_on_Nil: "hooks_on [] w \<longleftrightarrow> post_acc_hooks w = []"
  by (auto simp: hooks_on_def)

lemma map_of_present: "p \<in> fst ` set ds \<Longrightarrow> \<exists>g. map_of ds p = Some g"
  by (cases "map_of ds p") (simp_all add: map_of_eq_None_iff)

subsection \<open>The log and the sequence of operations\<close>

lemma logged_append: "logged fw cs (a @ b) = logged fw cs a @ logged fw (cs @ a) b"
  by (induction a arbitrary: cs) simp_all

lemma log_of_Nil [simp]: "log_of fw w [] = history w"
  by (simp add: log_of_def)

lemma log_of_trans:
  "calls w1 = calls w @ a \<Longrightarrow> recording w1 = recording w \<Longrightarrow> history w1 = log_of fw w a \<Longrightarrow>
   log_of fw w1 b = log_of fw w (a @ b)"
  by (simp add: log_of_def logged_append)

lemma emit_history: "history (emit fw c w) = log_of fw w [c]"
  by (simp add: emit_def log_of_def)

lemma step_history: "history (step fw opt w) = log_of fw w [Step opt]"
  by (simp add: step_def emit_history)

lemma zero_grad_history: "history (zero_grad fw opt w) = log_of fw w [ZeroGrad opt]"
  by (simp add: zero_grad_def emit_history)

lemma accumulate_grad_history: "history (accumulate_grad fw p g w) = log_of fw w [AccumulateGrad p]"
  by (simp add: accumulate_grad_def emit_def log_of_def)

lemma forwarded_history: "history (forwarded fw w) = log_of fw w [Rand, Forward]"
  by (simp add: forwarded_def emit_def log_of_def)

lemma hooked_history:
  "history (hooked fw p opt w) = log_of fw w [DictLookup p, Step opt, DictLookup p, ZeroGrad opt]"
  by (simp add: hooked_def zero_grad_def step_def emit_def log_of_def)

lemma deliver_history:
  "history (deliver fw ps d w) = log_of fw w (leaf_calls ps (optimizer_dict w) (fst d))"
  by (simp add: deliver_def leaf_calls_def hooked_def zero_grad_def step_def accumulate_grad_def
      emit_def log_of_def)

lemma fold_deliver_history:
  "history (fold (deliver fw ps) ds w) =
     log_of fw w (concat (map (\<lambda>d. leaf_calls ps (optimizer_dict w) (fst d)) ds))"
proof (induction ds arbitrary: w)
  case Nil
  then show ?case by simp
next
  case (Cons d ds)
  have "log_of fw (deliver fw ps d w) (concat (map (\<lambda>d. leaf_calls ps (optimizer_dict w) (fst d)) ds)) =
        log_of fw w (leaf_calls ps (optimizer_dict w) (fst d)
          @ concat (map (\<lambda>d. leaf_calls ps (optimizer_dict w) (fst d)) ds))"
    by (rule log_of_trans) (simp_all add: deliver_history)
  then show ?case using Cons.IH [of "deliver fw ps d w"] by simp
qed

text \<open>The operations of one iteration when the hooks are on \<open>ps\<close>.\<close>

lemma iteration_call_leaf: "list_all (iteration_call (ps \<noteq> [])) (leaf_calls ps d p)"
  by (auto simp: leaf_calls_def)

lemma iteration_call_leaves:
  "list_all (iteration_call (ps \<noteq> [])) (concat (map (\<lambda>x. leaf_calls ps d (fst x)) ds))"
  by (induction ds) (simp_all add: iteration_call_leaf)

lemma fused_iteration:
  assumes "hooks_on ps w"
  shows "\<exists>w' tr. train' fw w = Inr w' \<and> hooks_on ps w'
           \<and> calls w' = calls w @ tr \<and> list_all (iteration_call (ps \<noteq> [])) tr
           \<and> recording w' = recording w \<and> history w' = log_of fw w tr
           \<and> files w' = files w \<and> optimizer_dict w' = optimizer_dict w
           \<and> next_oid w' = next_oid w"
proof -
  let ?tr2 = "concat (map (\<lambda>d. leaf_calls ps (optimizer_dict w) (fst d)) (grads_of fw w))"
  let ?w0 = "emit fw Backward (forwarded fw w)"
  let ?w' = "fold (deliver fw ps) (grads_of fw w) ?w0"
  have h0: "history ?w0 = log_of fw w [Rand, Forward, Backward]"
    using log_of_trans [of "forwarded fw w" w "[Rand, Forward]" fw "[Backward]"]
    by (simp add: emit_history forwarded_history)
  have "log_of fw ?w0 ?tr2 = log_of fw w ([Rand, Forward, Backward] @ ?tr2)"
    by (rule log_of_trans) (simp_all add: h0)
  then have h: "history ?w' = log_of fw w ([Rand, Forward, Backward] @ ?tr2)"
    by (simp add: fold_deliver_history)
  have c: "calls ?w' = calls w @ ([Rand, Forward, Backward] @ ?tr2)"
    by (simp add: fold_deliver_calls)
  have l: "list_all (iteration_call (ps \<noteq> [])) ([Rand, Forward, Backward] @ ?tr2)"
    by (simp add: iteration_call_leaves)
  have "train' fw w = Inr ?w'" using assms by (rule train'_deliver)
  moreover have "hooks_on ps ?w'" using assms by simp
  ultimately show ?thesis using c l h by (intro exI [of _ ?w'] exI [of _ "[Rand, Forward, Backward] @ ?tr2"]) simp
qed

lemma owned_step [simp]: "owned (step fw opt w) q = owned w q"
  by (simp add: owned_def split: option.splits)

lemma owned_zero_grad [simp]: "owned (zero_grad fw opt w) q = owned w q"
  by (simp add: owned_def split: option.splits)

lemma hooks_on_step [simp]: "hooks_on ps (step fw opt w) = hooks_on ps w"
  by (simp add: hooks_on_def list_all_iff)

lemma hooks_on_zero_grad [simp]: "hooks_on ps (zero_grad fw opt w) = hooks_on ps w"
  by (simp add: hooks_on_def list_all_iff)

lemma baseline_iteration:
  assumes "hooks_on [] w"
  shows "\<exists>w' tr. train fw opt w = Inr w' \<and> hooks_on [] w'
           \<and> calls w' = calls w @ tr \<and> list_all (iteration_call False) tr
           \<and> recording w' = recording w \<and> history w' = log_of fw w tr
           \<and> files w' = files w \<and> optimizer_dict w' = optimizer_dict w
           \<and> next_oid w' = next_oid w"
proof -
  let ?tr2 = "concat (map (\<lambda>d. leaf_calls [] (optimizer_dict w) (fst d)) (grads_of fw w))"
  let ?tr = "[Rand, Forward, Backward] @ ?tr2 @ [Step opt, ZeroGrad opt]"
  let ?w0 = "emit fw Backward (forwarded fw w)"
  let ?w3 = "fold (deliver fw []) (grads_of fw w) ?w0"
  let ?w4 = "step fw opt ?w3"
  let ?w' = "zero_grad fw opt ?w4"
  have h0: "history ?w0 = log_of fw w [Rand, Forward, Backward]"
    using log_of_trans [of "forwarded fw w" w "[Rand, Forward]" fw "[Backward]"]
    by (simp add: emit_history forwarded_history)
  have "log_of fw ?w0 ?tr2 = log_of fw w ([Rand, Forward, Backward] @ ?tr2)"
    by (rule log_of_trans) (simp_all add: h0)
  then have h3: "history ?w3 = log_of fw w ([Rand, Forward, Backward] @ ?tr2)"
    by (simp add: fold_deliver_history)
  have "log_of fw ?w3 [Step opt] = log_of fw w (([Rand, Forward, Backward] @ ?tr2) @ [Step opt])"
    by (rule log_of_trans) (simp_all add: h3 fold_deliver_calls)
  then have h4: "history ?w4 = log_of fw w (([Rand, Forward, Backward] @ ?tr2) @ [Step opt])"
    by (simp add: step_history)
  have "log_of fw ?w4 [ZeroGrad opt] =
          log_of fw w ((([Rand, Forward, Backward] @ ?tr2) @ [Step opt]) @ [ZeroGrad opt])"
    by (rule log_of_trans) (simp_all add: h4 fold_deliver_calls)
  then have h: "history ?w' = log_of fw w ?tr"
    by (simp add: zero_grad_history)
  have c: "calls ?w' = calls w @ ?tr"
    by (simp add: fold_deliver_calls)
  have "list_all (iteration_call ([] \<noteq> ([] :: pid list))) ?tr2"
    by (rule iteration_call_leaves)
  then have l: "list_all (iteration_call False) ?tr" by simp
  have "train fw opt w = Inr ?w'" using assms by (rule train_deliver)
  moreover have "hooks_on [] ?w'" using assms by simp
  ultimately show ?thesis using c l h by (intro exI [of _ ?w'] exI [of _ ?tr]) simp
qed

lemma repeat_iterations:
  assumes step: "\<And>w. hooks_on ps w \<Longrightarrow>
            \<exists>w' tr. body w = Inr w' \<and> hooks_on ps w'
              \<and> calls w' = calls w @ tr \<and> list_all P tr
              \<and> recording w' = recording w \<and> history w' = log_of fw w tr
              \<and> files w' = files w \<and> optimizer_dict w' = optimizer_dict w
              \<and> next_oid w' = next_oid w"
    and "hooks_on ps w"
  shows "\<exists>w' tr. repeat n body w = Inr w' \<and> hooks_on ps w'
           \<and> calls w' = calls w @ tr \<and> list_all P tr
           \<and> recording w' = recording w \<and> history w' = log_of fw w tr
           \<and> files w' = files w \<and> optimizer_dict w' = optimizer_dict w
           \<and> next_oid w' = next_oid w"
  using assms(2)
proof (induction n arbitrary: w)
  case 0
  then show ?case by (intro exI [of _ w] exI [of _ "[]"]) simp
next
  case (Suc n)
  from step [OF Suc.prems] obtain w1 tr1 where 1: "body w = Inr w1" "hooks_on ps w1"
    "calls w1 = calls w @ tr1" "list_all P tr1" "recording w1 = recording w"
    "history w1 = log_of fw w tr1" "files w1 = files w" "optimizer_dict w1 = optimizer_dict w"
    "next_oid w1 = next_oid w"
    by blast
  from Suc.IH [OF 1(2)] obtain w2 tr2 where 2: "repeat n body w1 = Inr w2" "hooks_on ps w2"
    "calls w2 = calls w1 @ tr2" "list_all P tr2" "recording w2 = recording w1"
    "history w2 = log_of fw w1 tr2" "files w2 = files w1" "optimizer_dict w2 = optimizer_dict w1"
    "next_oid w2 = next_oid w1"
    by blast
  have "log_of fw w1 tr2 = log_of fw w (tr1 @ tr2)"
    using 1(3) 1(5) 1(6) by (rule log_of_trans)
  then show ?case
    using 1 2 by (intro exI [of _ w2] exI [of _ "tr1 @ tr2"]) simp
qed

subsection \<open>The windows and the script\<close>

lemma record_memory_history_fields [simp]:
  "data (record_memory_history fw en w) = data w"
  "grad (record_memory_history fw en w) = grad w"
  "post_acc_hooks (record_memory_history fw en w) = post_acc_hooks w"
  "heap (record_memory_history fw en w) = heap w"
  "next_oid (record_memory_history fw en w) = next_oid w"
  "optimizer_dict (record_memory_history fw en w) = optimizer_dict w"
  "rng (record_memory_history fw en w) = rng w"
  "recording (record_memory_history fw en w) = en"
  "history (record_memory_history fw en w) = (if en then [] else history w)"
  "files (record_memory_history fw en w) = files w"
  "calls (record_memory_history fw en w) = calls w @ [RecordMemoryHistory en]"
  by (simp_all add: record_memory_history_def)

lemma snapshot_fields [simp]:
  "fst (snapshot fw w) = history w"
  "data (snd (snapshot fw w)) = data w"
  "grad (snd (snapshot fw w)) = grad w"
  "post_acc_hooks (snd (snapshot fw w)) = post_acc_hooks w"
  "heap (snd (snapshot fw w)) = heap w"
  "next_oid (snd (snapshot fw w)) = next_oid w"
  "optimizer_dict (snd (snapshot fw w)) = optimizer_dict w"
  "rng (snd (snapshot fw w)) = rng w"
  "recording (snd (snapshot fw w)) = recording w"
  "history (snd (snapshot fw w)) = history w"
  "files (snd (snapshot fw w)) = files w"
  "calls (snd (snapshot fw w)) = calls w @ [Snapshot]"
  by (simp_all add: snapshot_def)

lemma dump_fields [simp]:
  "data (dump fw s name w) = data w"
  "grad (dump fw s name w) = grad w"
  "post_acc_hooks (dump fw s name w) = post_acc_hooks w"
  "heap (dump fw s name w) = heap w"
  "next_oid (dump fw s name w) = next_oid w"
  "optimizer_dict (dump fw s name w) = optimizer_dict w"
  "rng (dump fw s name w) = rng w"
  "recording (dump fw s name w) = recording w"
  "history (dump fw s name w) = history w"
  "files (dump fw s name w) = (files w)(name \<mapsto> s)"
  "calls (dump fw s name w) = calls w @ [Dump name]"
  by (simp_all add: dump_def)

lemma hooks_on_cong:
  "post_acc_hooks w' = post_acc_hooks w \<Longrightarrow> optimizer_dict w' = optimizer_dict w \<Longrightarrow>
   heap w' = heap w \<Longrightarrow> hooks_on ps w' = hooks_on ps w"
  by (simp add: hooks_on_def owned_def list_all_iff split: option.splits)

lemma hooks_on_record_memory_history [simp]:
  "hooks_on ps (record_memory_history fw en w) = hooks_on ps w"
  by (rule hooks_on_cong) simp_all

lemma window_baseline_unfold:
  "window_baseline fw opt w =
     (case repeat 3 (train fw opt) (record_memory_history fw True w) of
        Inl e \<Rightarrow> Inl e
      | Inr w1 \<Rightarrow>
          Inr (record_memory_history fw False
                 (dump fw (history w1) ''snapshot.pickle'' (snd (snapshot fw w1)))))"
  by (simp add: window_baseline_def split_def Let_def snapshot_def split: sum.splits)

lemma window_fused_unfold:
  "window_fused fw w =
     (case repeat 3 (train' fw) (record_memory_history fw True w) of
        Inl e \<Rightarrow> Inl e
      | Inr w1 \<Rightarrow>
          Inr (record_memory_history fw False
                 (dump fw (history w1) ''snapshot-opt-in-bwd.pickle'' (snd (snapshot fw w1)))))"
  by (simp add: window_fused_def split_def Let_def snapshot_def split: sum.splits)

lemma log_of_started:
  "log_of fw (record_memory_history fw True w) tr = logged fw (calls w @ [RecordMemoryHistory True]) tr"
  by (simp add: log_of_def)

lemma window_baseline_run:
  assumes "hooks_on [] w"
  shows "\<exists>w2 w4 tr. repeat 3 (train fw opt) (record_memory_history fw True w) = Inr w2
           \<and> window_baseline fw opt w = Inr w4
           \<and> calls w2 = calls w @ [RecordMemoryHistory True] @ tr
           \<and> list_all (iteration_call False) tr
           \<and> recording w2
           \<and> history w2 = logged fw (calls w @ [RecordMemoryHistory True]) tr
           \<and> calls w4 = calls w2 @ [Snapshot, Dump ''snapshot.pickle'', RecordMemoryHistory False]
           \<and> files w4 = (files w)(''snapshot.pickle'' \<mapsto> history w2)
           \<and> \<not> recording w4
           \<and> hooks_on [] w4 \<and> optimizer_dict w4 = optimizer_dict w \<and> next_oid w4 = next_oid w"
proof -
  let ?w1 = "record_memory_history fw True w"
  have h: "hooks_on [] ?w1" using assms by simp
  from repeat_iterations [of "[]" "train fw opt" "iteration_call False" fw ?w1 3, OF baseline_iteration h]
  obtain w2 tr where 2: "repeat 3 (train fw opt) ?w1 = Inr w2" "hooks_on [] w2"
    "calls w2 = calls ?w1 @ tr" "list_all (iteration_call False) tr" "recording w2 = recording ?w1"
    "history w2 = log_of fw ?w1 tr" "files w2 = files ?w1" "optimizer_dict w2 = optimizer_dict ?w1"
    "next_oid w2 = next_oid ?w1"
    by blast
  let ?w4 = "record_memory_history fw False (dump fw (history w2) ''snapshot.pickle'' (snd (snapshot fw w2)))"
  have "window_baseline fw opt w = Inr ?w4"
    using 2(1) by (simp add: window_baseline_unfold)
  moreover have "hooks_on [] ?w4"
    using 2(2) by (simp add: hooks_on_Nil)
  ultimately show ?thesis
    using 2 by (intro exI [of _ w2] exI [of _ ?w4] exI [of _ tr]) (simp add: log_of_started)
qed

lemma window_fused_run:
  assumes "hooks_on ps w"
  shows "\<exists>w2 w4 tr. repeat 3 (train' fw) (record_memory_history fw True w) = Inr w2
           \<and> window_fused fw w = Inr w4
           \<and> calls w2 = calls w @ [RecordMemoryHistory True] @ tr
           \<and> list_all (iteration_call (ps \<noteq> [])) tr
           \<and> recording w2
           \<and> history w2 = logged fw (calls w @ [RecordMemoryHistory True]) tr
           \<and> calls w4 = calls w2 @ [Snapshot, Dump ''snapshot-opt-in-bwd.pickle'', RecordMemoryHistory False]
           \<and> files w4 = (files w)(''snapshot-opt-in-bwd.pickle'' \<mapsto> history w2)
           \<and> \<not> recording w4
           \<and> optimizer_dict w4 = optimizer_dict w \<and> next_oid w4 = next_oid w"
proof -
  let ?w1 = "record_memory_history fw True w"
  have h: "hooks_on ps ?w1" using assms by simp
  from repeat_iterations [of ps "train' fw" "iteration_call (ps \<noteq> [])" fw ?w1 3, OF fused_iteration h]
  obtain w2 tr where 2: "repeat 3 (train' fw) ?w1 = Inr w2" "hooks_on ps w2"
    "calls w2 = calls ?w1 @ tr" "list_all (iteration_call (ps \<noteq> [])) tr" "recording w2 = recording ?w1"
    "history w2 = log_of fw ?w1 tr" "files w2 = files ?w1" "optimizer_dict w2 = optimizer_dict ?w1"
    "next_oid w2 = next_oid ?w1"
    by blast
  let ?w4 = "record_memory_history fw False (dump fw (history w2) ''snapshot-opt-in-bwd.pickle'' (snd (snapshot fw w2)))"
  have "window_fused fw w = Inr ?w4"
    using 2(1) by (simp add: window_fused_unfold)
  then show ?thesis
    using 2 by (intro exI [of _ w2] exI [of _ ?w4] exI [of _ tr]) (simp add: log_of_started)
qed

lemma iteration_call_not_assign: "iteration_call h c \<Longrightarrow> c \<noteq> DictAssign"
  by (cases c) simp_all

lemma iteration_call_no_dict: "iteration_call False c \<Longrightarrow> \<not> uses_dict c"
  by (cases c) simp_all

lemma iteration_calls_not_assign: "list_all (iteration_call h) tr \<Longrightarrow> DictAssign \<notin> set tr"
  by (auto simp: list_all_iff dest: iteration_call_not_assign)

lemma iteration_calls_no_dict: "list_all (iteration_call False) tr \<Longrightarrow> \<forall>c\<in>set tr. \<not> uses_dict c"
  by (auto simp: list_all_iff dest: iteration_call_no_dict)

lemma new_adam_calls_plain:
  "DictAssign \<notin> set (new_adam_calls n ps)" "\<forall>c\<in>set (new_adam_calls n ps). \<not> uses_dict c"
  by (induction ps arbitrary: n) auto

lemma dict_comprehension_calls:
  "calls (snd (dict_comprehension fw ps d w)) = calls w @ new_adam_calls (next_oid w) ps"
  by (induction ps arbitrary: d w) (simp_all add: dict_comprehension_Cons del: dict_comprehension.simps(2))

lemma build_optimizer_dict_calls:
  "calls (build_optimizer_dict fw ps w) = calls w @ new_adam_calls (next_oid w) ps @ [DictAssign]"
  by (simp add: build_optimizer_dict_def split_def Let_def dict_comprehension_calls)

lemma script_unfold:
  "script fw ps w0 =
     (case window_baseline fw (next_oid w0) (snd (new_adam fw ps w0)) of
        Inl e \<Rightarrow> Inl e
      | Inr w2 \<Rightarrow>
          window_fused fw (emit fw DelOptimizer (register_hooks fw ps (build_optimizer_dict fw ps w2))))"
  by (simp add: script_def split_def Let_def split: sum.splits)

lemma hooks_on_new_adam: "post_acc_hooks w = [] \<Longrightarrow> hooks_on [] (snd (new_adam fw ps w))"
  by (simp add: hooks_on_Nil)

lemma script_run:
  assumes "distinct ps" and "post_acc_hooks w0 = []"
  shows "\<exists>w2 wf pre post.
           window_baseline fw (next_oid w0) (snd (new_adam fw ps w0)) = Inr w2
           \<and> script fw ps w0 = Inr wf
           \<and> calls wf = calls w0 @ pre @ [DictAssign] @ post
           \<and> DictAssign \<notin> set pre \<and> (\<forall>c\<in>set pre. \<not> uses_dict c)
           \<and> DictAssign \<notin> set post
           \<and> optimizer_dict wf = optimizer_dict (build_optimizer_dict fw ps w2)"
proof -
  let ?w1 = "snd (new_adam fw ps w0)"
  have h1: "hooks_on [] ?w1" using assms(2) by (rule hooks_on_new_adam)
  from window_baseline_run [OF h1, of fw "next_oid w0"]
  obtain v2 w2 tr1 where B: "repeat 3 (train fw (next_oid w0)) (record_memory_history fw True ?w1) = Inr v2
           \<and> window_baseline fw (next_oid w0) ?w1 = Inr w2
           \<and> calls v2 = calls ?w1 @ [RecordMemoryHistory True] @ tr1
           \<and> list_all (iteration_call False) tr1
           \<and> recording v2
           \<and> history v2 = logged fw (calls ?w1 @ [RecordMemoryHistory True]) tr1
           \<and> calls w2 = calls v2 @ [Snapshot, Dump ''snapshot.pickle'', RecordMemoryHistory False]
           \<and> files w2 = (files ?w1)(''snapshot.pickle'' \<mapsto> history v2)
           \<and> \<not> recording w2
           \<and> hooks_on [] w2 \<and> optimizer_dict w2 = optimizer_dict ?w1 \<and> next_oid w2 = next_oid ?w1"
    by (elim exE)
  then have b: "window_baseline fw (next_oid w0) ?w1 = Inr w2"
    "calls v2 = calls ?w1 @ [RecordMemoryHistory True] @ tr1"
    "list_all (iteration_call False) tr1"
    "calls w2 = calls v2 @ [Snapshot, Dump ''snapshot.pickle'', RecordMemoryHistory False]"
    "hooks_on [] w2"
    by simp_all
  let ?w3 = "build_optimizer_dict fw ps w2"
  let ?w5 = "emit fw DelOptimizer (register_hooks fw ps ?w3)"
  have "post_acc_hooks w2 = []" using b(5) by (simp add: hooks_on_Nil)
  with assms(1) have "hooks_on ps (register_hooks fw ps ?w3)" by (rule hooks_on_setup)
  then have h5: "hooks_on ps ?w5" by simp
  from window_fused_run [OF h5, of fw]
  obtain u2 wf tr2 where F: "repeat 3 (train' fw) (record_memory_history fw True ?w5) = Inr u2
           \<and> window_fused fw ?w5 = Inr wf
           \<and> calls u2 = calls ?w5 @ [RecordMemoryHistory True] @ tr2
           \<and> list_all (iteration_call (ps \<noteq> [])) tr2
           \<and> recording u2
           \<and> history u2 = logged fw (calls ?w5 @ [RecordMemoryHistory True]) tr2
           \<and> calls wf = calls u2 @ [Snapshot, Dump ''snapshot-opt-in-bwd.pickle'', RecordMemoryHistory False]
           \<and> files wf = (files ?w5)(''snapshot-opt-in-bwd.pickle'' \<mapsto> history u2)
           \<and> \<not> recording wf
           \<and> optimizer_dict wf = optimizer_dict ?w5 \<and> next_oid wf = next_oid ?w5"
    by (elim exE)
  then have f: "window_fused fw ?w5 = Inr wf"
    "calls u2 = calls ?w5 @ [RecordMemoryHistory True] @ tr2"
    "list_all (iteration_call (ps \<noteq> [])) tr2"
    "calls wf = calls u2 @ [Snapshot, Dump ''snapshot-opt-in-bwd.pickle'', RecordMemoryHistory False]"
    "optimizer_dict wf = optimizer_dict ?w5"
    by simp_all
  let ?pre = "[NewAdam (next_oid w0) ps, RecordMemoryHistory True] @ tr1
      @ [Snapshot, Dump ''snapshot.pickle'', RecordMemoryHistory False]
      @ new_adam_calls (next_oid w2) ps"
  let ?post = "map RegisterHook ps @ [DelOptimizer, RecordMemoryHistory True] @ tr2
      @ [Snapshot, Dump ''snapshot-opt-in-bwd.pickle'', RecordMemoryHistory False]"
  have run: "script fw ps w0 = Inr wf"
    using b(1) f(1) by (simp add: script_unfold)
  have cs: "calls wf = calls w0 @ ?pre @ [DictAssign] @ ?post"
    using b(2) b(4) f(2) f(4) by (simp add: build_optimizer_dict_calls)
  have p1: "DictAssign \<notin> set ?pre"
    using iteration_calls_not_assign [OF b(3)] new_adam_calls_plain(1) [of "next_oid w2" ps]
    by simp
  have p2: "\<forall>c\<in>set ?pre. \<not> uses_dict c"
    using iteration_calls_no_dict [OF b(3)] new_adam_calls_plain(2) [of "next_oid w2" ps]
    by auto
  have p3: "DictAssign \<notin> set ?post"
    using iteration_calls_not_assign [OF f(3)] by auto
  have d: "optimizer_dict wf = optimizer_dict ?w3"
    using f(5) by (simp del: build_optimizer_dict_fields)
  show ?thesis
    using b(1) run cs p1 p2 p3 d
    by (intro exI [of _ w2] exI [of _ wf] exI [of _ ?pre] exI [of _ ?post]) blast
qed

subsection \<open>The store the hook returns\<close>

lemma optimizer_hook_dict:
  "optimizer_hook fw p w = Inr w' \<Longrightarrow> optimizer_dict w' = optimizer_dict w"
  "optimizer_hook fw p w = Inl (e, w') \<Longrightarrow> optimizer_dict w' = optimizer_dict w"
  by (auto simp: optimizer_hook_def dict_getitem_def Let_def split: option.splits)

lemma hooked_heap:
  assumes "param_list (heap w opt) = [p]"
  shows "heap (hooked fw p opt w) =
           (heap w)(opt := (heap w opt)\<lparr>opt_state :=
              (opt_state (heap w opt))(p := fst (update_of fw (opt_state (heap w opt) p) (grad w p) (data w p)))\<rparr>)"
proof
  fix x
  show "heap (hooked fw p opt w) x =
          ((heap w)(opt := (heap w opt)\<lparr>opt_state :=
              (opt_state (heap w opt))(p := fst (update_of fw (opt_state (heap w opt) p) (grad w p) (data w p)))\<rparr>)) x"
  proof (cases "x = opt")
    case True
    have "heap (hooked fw p opt w) opt =
            (heap w opt)\<lparr>opt_state :=
              (opt_state (heap w opt))(p := fst (update_of fw (opt_state (heap w opt) p) (grad w p) (data w p)))\<rparr>"
      by (rule optimizer.equality) (simp_all add: hooked_state [OF assms])
    then show ?thesis using True by simp
  next
    case False
    then show ?thesis by (simp add: hooked_other_heap)
  qed
qed

lemma hooked_world:
  assumes "param_list (heap w opt) = [p]"
  shows "hooked fw p opt w =
           w\<lparr>data := (data w)(p := snd (update_of fw (opt_state (heap w opt) p) (grad w p) (data w p))),
             grad := (grad w)(p := None),
             heap := (heap w)(opt := (heap w opt)\<lparr>opt_state :=
               (opt_state (heap w opt))(p := fst (update_of fw (opt_state (heap w opt) p) (grad w p) (data w p)))\<rparr>),
             history := log_of fw w [DictLookup p, Step opt, DictLookup p, ZeroGrad opt],
             calls := calls w @ [DictLookup p, Step opt, DictLookup p, ZeroGrad opt]\<rparr>"
  by (rule world.equality)
     (simp_all add: hooked_data [OF assms] hooked_grad [OF assms] hooked_heap [OF assms] hooked_history)

subsection \<open>The baseline loop and the fused loop, side by side\<close>

lemma acc_opt_None: "acc_opt fw None m = map_option (accumulated fw None) m"
  by (cases m) simp_all

lemma agree_params:
  "agree ps opt wb wh \<Longrightarrow> q \<in> set ps \<Longrightarrow>
   grad wb q = None \<and> grad wh q = None
   \<and> (\<exists>o'. optimizer_dict wh q = Some o' \<and> opt_state (heap wb opt) q = opt_state (heap wh o') q)"
  by (auto simp: agree_def list_all_iff split: option.splits)

lemma agree_same_leaves: "agree ps opt wb wh \<Longrightarrow> grads_of fw wh = grads_of fw wb"
  by (simp add: agree_def grads_of_def loss_of_def)

lemma agree_step:
  assumes hh: "hooks_on ps wh" and hb: "hooks_on [] wb" and pl: "param_list (heap wb opt) = ps"
    and ag: "agree ps opt wb wh" and di: "distinct (map fst (grads_of fw wb))"
  shows "\<exists>wb' wh'. train fw opt wb = Inr wb' \<and> train' fw wh = Inr wh'
           \<and> hooks_on ps wh' \<and> hooks_on [] wb' \<and> param_list (heap wb' opt) = ps
           \<and> agree ps opt wb' wh'"
proof -
  let ?ds = "grads_of fw wb"
  let ?h0 = "emit fw Backward (forwarded fw wh)"
  let ?b0 = "emit fw Backward (forwarded fw wb)"
  let ?H = "fold (deliver fw ps) ?ds ?h0"
  let ?B3 = "fold (deliver fw []) ?ds ?b0"
  let ?B = "zero_grad fw opt (step fw opt ?B3)"
  have dps: "distinct ps" using hh by (simp add: hooks_on_def)
  have runh: "train' fw wh = Inr ?H"
    using train'_deliver [OF hh, of fw] agree_same_leaves [OF ag, of fw] by simp
  have runb: "train fw opt wb = Inr ?B"
    using hb by (rule train_deliver)
  have ownh: "list_all (owned ?h0) ps" using hh by (simp add: hooks_on_def list_all_iff)
  have ownb: "list_all (owned ?b0) []" by simp
  have plain: "data ?B3 q = data wb q
       \<and> (\<forall>x. opt_state (heap ?B3 x) q = opt_state (heap wb x) q)
       \<and> grad ?B3 q = acc_opt fw (grad wb q) (map_of ?ds q)" for q
    using fold_deliver_plain [OF ownb di, of q fw] by simp
  have pl3: "param_list (heap ?B3 opt) = ps" using pl by simp
  have inside: "data ?B q = data ?H q \<and> grad ?B q = None \<and> grad ?H q = None
       \<and> (\<exists>o'. optimizer_dict ?H q = Some o' \<and> opt_state (heap ?B opt) q = opt_state (heap ?H o') q)"
    if q: "q \<in> set ps" for q
  proof -
    from agree_params [OF ag q] obtain o' where a: "grad wb q = None" "grad wh q = None"
      "optimizer_dict wh q = Some o'" "opt_state (heap wb opt) q = opt_state (heap wh o') q"
      by blast
    have dh: "optimizer_dict ?h0 q = Some o'" using a(3) by simp
    have fused: "data ?H q =
           snd (update_of fw (opt_state (heap ?h0 o') q)
                  (map_option (accumulated fw (grad ?h0 q)) (map_of ?ds q)) (data ?h0 q))
       \<and> opt_state (heap ?H o') q =
           fst (update_of fw (opt_state (heap ?h0 o') q)
                  (map_option (accumulated fw (grad ?h0 q)) (map_of ?ds q)) (data ?h0 q))
       \<and> grad ?H q = (if map_of ?ds q = None then grad ?h0 q else None)"
      by (rule fold_deliver_hooked [OF ownh di q dh])
    have sd: "data (step fw opt ?B3) q =
            snd (update_of fw (opt_state (heap ?B3 opt) q) (grad ?B3 q) (data ?B3 q))"
      by (rule step_data) (simp_all only: pl3 dps q)
    have ss: "opt_state (heap (step fw opt ?B3) opt) q =
            fst (update_of fw (opt_state (heap ?B3 opt) q) (grad ?B3 q) (data ?B3 q))"
      by (rule step_state) (simp_all only: pl3 dps q)
    have same_data: "data wb q = data wh q" using ag by (simp add: agree_def)
    have 1: "data ?B q = data ?H q"
      using sd fused plain [of q] a same_data by (simp add: acc_opt_None)
    have 2: "opt_state (heap ?B opt) q = opt_state (heap ?H o') q"
      using ss fused plain [of q] a same_data by (simp add: acc_opt_None)
    have 3: "grad ?B q = None" using q pl by (simp add: zero_grad_grad)
    have 4: "grad ?H q = None" using fused a(2) by simp
    have 5: "optimizer_dict ?H q = Some o'" using a(3) by simp
    show ?thesis using 1 2 3 4 5 by blast
  qed
  have outside: "data ?B q = data ?H q" if q: "q \<notin> set ps" for q
  proof -
    have "data ?H q = data wh q"
      using fold_deliver_unhooked_data [OF ownh q, of fw ?ds] by simp
    moreover have "data (step fw opt ?B3) q = data ?B3 q"
      by (rule step_other_data) (simp only: pl3 q not_False_eq_True)
    moreover have "data wb q = data wh q" using ag by (simp add: agree_def)
    ultimately show ?thesis using plain [of q] by simp
  qed
  have d: "data ?B = data ?H"
  proof
    fix q
    show "data ?B q = data ?H q"
      using inside [of q] outside [of q] by (cases "q \<in> set ps") simp_all
  qed
  have r: "rng ?B = rng ?H" using ag by (simp add: agree_def)
  have "agree ps opt ?B ?H"
    unfolding agree_def list_all_iff
  proof (intro conjI ballI)
    show "data ?B = data ?H" by (rule d)
    show "rng ?B = rng ?H" by (rule r)
  next
    fix q
    assume "q \<in> set ps"
    from inside [OF this] show "grad ?B q = None" "grad ?H q = None"
      "case optimizer_dict ?H q of None \<Rightarrow> False
       | Some o' \<Rightarrow> opt_state (heap ?B opt) q = opt_state (heap ?H o') q"
      by auto
  qed
  moreover have "hooks_on ps ?H" using hh by simp
  moreover have "hooks_on [] ?B" using hb by simp
  moreover have "param_list (heap ?B opt) = ps" using pl by simp
  ultimately show ?thesis using runh runb by blast
qed

lemma agree_repeat:
  assumes di: "\<forall>l. distinct (map fst (leaf_grads fw l))"
    and "hooks_on ps wh" and "hooks_on [] wb" and "param_list (heap wb opt) = ps"
    and "agree ps opt wb wh"
  shows "\<exists>wb' wh'. repeat n (train fw opt) wb = Inr wb' \<and> repeat n (train' fw) wh = Inr wh'
           \<and> agree ps opt wb' wh'"
  using assms(2-)
proof (induction n arbitrary: wb wh)
  case 0
  then show ?case by simp
next
  case (Suc n)
  have "distinct (map fst (grads_of fw wb))" using di by (simp add: grads_of_def)
  from agree_step [OF Suc.prems this]
  obtain wb1 wh1 where 1: "train fw opt wb = Inr wb1" "train' fw wh = Inr wh1"
    "hooks_on ps wh1" "hooks_on [] wb1" "param_list (heap wb1 opt) = ps" "agree ps opt wb1 wh1"
    by blast
  from Suc.IH [OF 1(3) 1(4) 1(5) 1(6)] show ?case
    using 1(1) 1(2) by simp
qed

subsection \<open>Leaves the engine reaches, and leaves it does not\<close>

lemma reached_Nil [simp]: "reached [] q = []"
  by (simp add: reached_def)

lemma reached_Cons:
  "reached (d # ds) q = (if fst d = q then snd d # reached ds q else reached ds q)"
  by (simp add: reached_def)

lemma reached_empty_iff: "reached ds q = [] \<longleftrightarrow> q \<notin> fst ` set ds"
  by (induction ds) (auto simp: reached_Cons)

lemma acc_all_simps [simp]:
  "acc_all fw old [] = old"
  "acc_all fw old (g # gs) = acc_all fw (Some (accumulated fw old g)) gs"
  by (simp_all add: acc_all_def)

lemma acc_all_reached: "gs \<noteq> [] \<Longrightarrow> acc_all fw old gs \<noteq> None"
proof (induction gs arbitrary: old)
  case Nil
  then show ?case by simp
next
  case (Cons g gs)
  then show ?case by (cases gs) simp_all
qed



text \<open>Without hooks the engine only accumulates.\<close>

lemma deliver_Nil: "deliver fw [] d w = accumulate_grad fw (fst d) (snd d) w"
  by (simp add: deliver_def)

lemma fold_accumulate:
  "data (fold (deliver fw []) ds w) = data w
   \<and> heap (fold (deliver fw []) ds w) = heap w
   \<and> grad (fold (deliver fw []) ds w) q = acc_all fw (grad w q) (reached ds q)"
proof (induction ds arbitrary: w)
  case Nil
  then show ?case by simp
next
  case (Cons d ds)
  show ?case
    using Cons.IH [of "accumulate_grad fw (fst d) (snd d) w"]
    by (auto simp: deliver_Nil reached_Cons)
qed

subsection \<open>The small instance, evaluated\<close>

lemma toy_fields [simp]:
  "rand_stream toy_torch = (\<lambda>k. int k + 1)"
  "model_forward toy_torch = (\<lambda>b d. b + d 0 - d 1)"
  "leaf_grads toy_torch = (\<lambda>l. [(1, l), (0, 2 * l)])"
  "tensor_add toy_torch = (+)"
  "adam_init toy_torch = 0"
  "adam_update toy_torch = (\<lambda>st g v. (Suc st, v - g))"
  "allocator toy_torch = (\<lambda>cs c. [c])"
  by (simp_all add: toy_torch_def)

lemma fresh_fused_fields:
  "optimizer_dict fresh_fused = [0 \<mapsto> 0, 1 \<mapsto> 1]"
  "post_acc_hooks fresh_fused = [0, 1]"
  "data fresh_fused = (\<lambda>p. 10)"
  "grad fresh_fused = (\<lambda>p. None)"
  "param_list (heap fresh_fused 0) = [0]"
  "param_list (heap fresh_fused (Suc 0)) = [Suc 0]"
  "opt_state (heap fresh_fused 0) = Map.empty"
  "opt_state (heap fresh_fused (Suc 0)) = Map.empty"
  "rng fresh_fused = 0"
  "calls fresh_fused = [NewAdam 0 [0], NewAdam 1 [1], DictAssign, RegisterHook 0, RegisterHook 1]"
  by (simp_all add: fresh_fused_def register_hooks_def register_post_accumulate_grad_hook_def
      build_optimizer_dict_def new_adam_def fresh_def Let_def)

lemma hooks_on_fresh_fused: "hooks_on [0, 1] fresh_fused"
  by (simp add: hooks_on_def owned_def fresh_fused_fields)



lemmas toy_run_defs = window_baseline_def window_fused_def train_def train'_def rand_cuda_def
  forward_def backward_def accumulate_grad_def optimizer_hook_def dict_getitem_def step_def
  step_param_def zero_grad_def emit_def record_memory_history_def snapshot_def dump_def
  new_adam_def state_of_def accumulated_def fresh_baseline_def fresh_fused_def fresh_baseline3_def
  fresh_fused3_def fresh_def
  register_hooks_def register_post_accumulate_grad_hook_def build_optimizer_dict_def
  Let_def numeral_3_eq_3

section \<open>The claims\<close>

text \<open>
  C1. For the parameter it receives, \<open>optimizer_hook\<close> first looks the parameter up in
  \<open>optimizer_dict\<close>, then calls \<open>step\<close> on the optimizer found, then calls
  \<open>zero_grad\<close> on it, in this order: the store it returns is the one \<open>zero_grad\<close> makes
  of the one \<open>step\<close> makes of the store after the lookup, and the operations it adds to
  the sequence are the lookup, the step, the lookup of the second statement and the
  clearing.
\<close>

theorem optimizer_hook_order:
  assumes "optimizer_dict w p = Some opt"
  shows "optimizer_hook fw p w =
           Inr (zero_grad fw opt (emit fw (DictLookup p) (step fw opt (emit fw (DictLookup p) w))))
       \<and> (\<exists>w'. optimizer_hook fw p w = Inr w'
             \<and> calls w' = calls w @ [DictLookup p, Step opt, DictLookup p, ZeroGrad opt])"
  using assms by (simp add: optimizer_hook_def dict_getitem_def Let_def)

theorem optimizer_hook_order_witness:
  "optimizer_dict (accumulate_grad toy_torch 0 3 fresh_fused) 0 = Some 0
   \<and> (\<exists>w'. optimizer_hook toy_torch 0 (accumulate_grad toy_torch 0 3 fresh_fused) = Inr w'
         \<and> calls w' = calls (accumulate_grad toy_torch 0 3 fresh_fused)
               @ [DictLookup 0, Step 0, DictLookup 0, ZeroGrad 0])"
proof -
  have h: "optimizer_dict (accumulate_grad toy_torch 0 3 fresh_fused) 0 = Some 0"
    by (simp add: fresh_fused_fields)
  show ?thesis
    using h optimizer_hook_order [OF h, of toy_torch] by simp
qed

text \<open>
  C10. The lookup in \<open>optimizer_hook\<close> is unguarded: for a tensor that is not a key of
  \<open>optimizer_dict\<close> the hook raises KeyError, and at that moment no parameter value, no
  optimizer and no gradient accumulator has changed; the lookup is the only operation
  performed.
\<close>

theorem optimizer_hook_missing_key:
  assumes "optimizer_dict w p = None"
  shows "\<exists>w'. optimizer_hook fw p w = Inl (KeyError p, w')
           \<and> data w' = data w \<and> grad w' = grad w \<and> heap w' = heap w
           \<and> calls w' = calls w @ [DictLookup p]"
  using assms by (simp add: optimizer_hook_def dict_getitem_def Let_def)

theorem optimizer_hook_missing_key_witness:
  "optimizer_dict fresh_fused 2 = None
   \<and> (\<exists>w'. optimizer_hook toy_torch 2 fresh_fused = Inl (KeyError 2, w')
         \<and> data w' = data fresh_fused \<and> grad w' = grad fresh_fused \<and> heap w' = heap fresh_fused
         \<and> calls w' = calls fresh_fused @ [DictLookup 2])"
proof -
  have h: "optimizer_dict fresh_fused 2 = None"
    by (simp add: fresh_fused_fields)
  show ?thesis
    using h optimizer_hook_missing_key [OF h, of toy_torch] by simp
qed




text \<open>
  C3. The dictionary built at line 175 is a bijection between the parameters of the
  model and optimizer objects: its keys are exactly the parameters (as many entries as
  parameters, when the parameters are listed once each), different parameters have
  different optimizer objects, and the optimizer of a parameter was constructed over
  exactly that parameter.
\<close>

theorem optimizer_dict_bijection:
  assumes "w' = build_optimizer_dict fw parameters w"
  shows "dom (optimizer_dict w') = set parameters
       \<and> (distinct parameters \<longrightarrow> card (dom (optimizer_dict w')) = length parameters)
       \<and> inj_on (optimizer_dict w') (set parameters)
       \<and> bij_betw (\<lambda>p. the (optimizer_dict w' p)) (set parameters) (ran (optimizer_dict w'))
       \<and> (\<forall>p opt. optimizer_dict w' p = Some opt \<longrightarrow> param_list (heap w' opt) = [p])"
proof -
  let ?d = "optimizer_dict w'"
  have dom: "dom ?d = set parameters"
    unfolding assms by (rule build_optimizer_dict_dom)
  have owns: "param_list (heap w' opt) = [p]" if "?d p = Some opt" for p opt
    using that unfolding assms by (rule build_optimizer_dict_owns)
  have same: "p = q" if "?d p = Some opt" and "?d q = Some opt" for p q opt
    using owns [OF that(1)] owns [OF that(2)] by simp
  have inj: "inj_on ?d (set parameters)"
  proof (rule inj_onI)
    fix p q
    assume "p \<in> set parameters" and "?d p = ?d q"
    then obtain opt where "?d p = Some opt" and "?d q = Some opt"
      using dom by (metis domD)
    then show "p = q" by (rule same)
  qed
  have inj': "inj_on (\<lambda>p. the (?d p)) (set parameters)"
  proof (rule inj_onI)
    fix p q
    assume "p \<in> set parameters" and "q \<in> set parameters" and e: "the (?d p) = the (?d q)"
    then obtain x y where "?d p = Some x" and "?d q = Some y"
      using dom by (metis domD)
    with e show "p = q" using same by simp
  qed
  have img: "(\<lambda>p. the (?d p)) ` set parameters = ran ?d"
  proof
    show "(\<lambda>p. the (?d p)) ` set parameters \<subseteq> ran ?d"
    proof
      fix x
      assume "x \<in> (\<lambda>p. the (?d p)) ` set parameters"
      then obtain p where "p \<in> set parameters" and x: "x = the (?d p)" by blast
      then obtain y where "?d p = Some y" using dom by (metis domD)
      then show "x \<in> ran ?d" using x by (auto simp: ran_def)
    qed
    show "ran ?d \<subseteq> (\<lambda>p. the (?d p)) ` set parameters"
    proof
      fix x
      assume "x \<in> ran ?d"
      then obtain p where p: "?d p = Some x" by (auto simp: ran_def)
      then have "p \<in> set parameters" using dom by blast
      then show "x \<in> (\<lambda>p. the (?d p)) ` set parameters"
        using p by force
    qed
  qed
  show ?thesis
    using dom inj inj' img owns by (simp add: bij_betw_def distinct_card)
qed

theorem optimizer_dict_bijection_witness:
  "dom (optimizer_dict (build_optimizer_dict toy_torch [0, 1] fresh)) = {0, 1}
   \<and> card (dom (optimizer_dict (build_optimizer_dict toy_torch [0, 1] fresh))) = 2
   \<and> inj_on (optimizer_dict (build_optimizer_dict toy_torch [0, 1] fresh)) {0, 1}
   \<and> optimizer_dict (build_optimizer_dict toy_torch [0, 1] fresh) 0 = Some 0
   \<and> param_list (heap (build_optimizer_dict toy_torch [0, 1] fresh) 0) = [0]
   \<and> optimizer_dict (build_optimizer_dict toy_torch [0, 1] fresh) 1 = Some 1
   \<and> param_list (heap (build_optimizer_dict toy_torch [0, 1] fresh) 1) = [1]"
proof -
  have d: "optimizer_dict (build_optimizer_dict toy_torch [0, 1] fresh) = [0 \<mapsto> 0, 1 \<mapsto> 1]"
    by (simp add: fresh_def new_adam_def)
  show ?thesis
    using optimizer_dict_bijection [of "build_optimizer_dict toy_torch [0, 1] fresh" toy_torch "[0, 1]" fresh] d
    by auto
qed

text \<open>
  C9. When the optimizer found for \<open>p\<close> was constructed over \<open>[p]\<close>, a call of
  \<open>optimizer_hook\<close> on \<open>p\<close> changes the value of \<open>p\<close>, the state that this optimizer
  keeps for \<open>p\<close>, and the gradient accumulator of \<open>p\<close>. For every other parameter the
  value and the gradient accumulator are as before, and so are every other optimizer
  object and the state this optimizer keeps for other parameters.
\<close>

theorem optimizer_hook_frame:
  assumes "optimizer_dict w p = Some opt" and "param_list (heap w opt) = [p]"
  shows "\<exists>w'. optimizer_hook fw p w = Inr w'
           \<and> (\<forall>q. q \<noteq> p \<longrightarrow> data w' q = data w q \<and> grad w' q = grad w q)
           \<and> (\<forall>x. x \<noteq> opt \<longrightarrow> heap w' x = heap w x)
           \<and> (\<forall>q. q \<noteq> p \<longrightarrow> opt_state (heap w' opt) q = opt_state (heap w opt) q)
           \<and> param_list (heap w' opt) = [p]
           \<and> data w' p = snd (update_of fw (opt_state (heap w opt) p) (grad w p) (data w p))
           \<and> opt_state (heap w' opt) p = fst (update_of fw (opt_state (heap w opt) p) (grad w p) (data w p))
           \<and> grad w' p = None"
  using assms
  by (simp add: optimizer_hook_present hooked_data hooked_grad hooked_state hooked_other_heap)

theorem optimizer_hook_frame_witness:
  "optimizer_dict (accumulate_grad toy_torch 1 5 (accumulate_grad toy_torch 0 3 fresh_fused)) 0 = Some 0
   \<and> param_list (heap (accumulate_grad toy_torch 1 5 (accumulate_grad toy_torch 0 3 fresh_fused)) 0) = [0]
   \<and> (\<exists>w'. optimizer_hook toy_torch 0 (accumulate_grad toy_torch 1 5 (accumulate_grad toy_torch 0 3 fresh_fused)) = Inr w'
         \<and> data w' 0 = 7 \<and> grad w' 0 = None \<and> data w' 1 = 10 \<and> grad w' 1 = Some 5
         \<and> heap w' 1 = heap fresh_fused 1)"
proof -
  let ?w = "accumulate_grad toy_torch 1 5 (accumulate_grad toy_torch 0 3 fresh_fused)"
  have h1: "optimizer_dict ?w 0 = Some 0" by (simp add: fresh_fused_fields)
  have h2: "param_list (heap ?w 0) = [0]" by (simp add: fresh_fused_fields)
  from optimizer_hook_frame [OF h1 h2, of toy_torch]
  obtain w' where "optimizer_hook toy_torch 0 ?w = Inr w'"
    and "\<forall>q. q \<noteq> 0 \<longrightarrow> data w' q = data ?w q \<and> grad w' q = grad ?w q"
    and "\<forall>x. x \<noteq> 0 \<longrightarrow> heap w' x = heap ?w x"
    and "data w' 0 = snd (update_of toy_torch (opt_state (heap ?w 0) 0) (grad ?w 0) (data ?w 0))"
    and "grad w' 0 = None"
    by blast
  then have "optimizer_hook toy_torch 0 ?w = Inr w'
         \<and> data w' 0 = 7 \<and> grad w' 0 = None \<and> data w' 1 = 10 \<and> grad w' 1 = Some 5
         \<and> heap w' 1 = heap fresh_fused 1"
    by (simp add: fresh_fused_fields update_of_def state_of_def accumulated_def)
  then show ?thesis using h1 h2 by blast
qed



text \<open>
  C7. One iteration of the baseline loop, where no hook is registered, performs in
  order: the batch, the forward evaluation, the backward call with one accumulation
  per leaf the engine reaches, one \<open>step\<close> of the shared optimizer, one \<open>zero_grad\<close>.
  The backward pass changes no value and leaves in every accumulator what the engine
  accumulated into it, so the accumulator of a leaf it reaches is populated. The step
  mutates every parameter of the optimizer that has a gradient, by one application of
  the update rule from that gradient and the parameter's state, and leaves a parameter
  without gradient as it is. After the iteration the accumulator of every parameter of
  the optimizer is empty.
\<close>

theorem baseline_train_order:
  assumes "post_acc_hooks w = []"
  shows "\<exists>w3 w'. backward fw (loss_of fw w) (forwarded fw w) = Inr w3
           \<and> train fw opt w = Inr w' \<and> w' = zero_grad fw opt (step fw opt w3)
           \<and> calls w3 = calls w @ [Rand, Forward, Backward]
                 @ map (\<lambda>d. AccumulateGrad (fst d)) (grads_of fw w)
           \<and> calls w' = calls w3 @ [Step opt, ZeroGrad opt]
           \<and> (\<forall>p. data w3 p = data w p
                 \<and> grad w3 p = acc_all fw (grad w p) (reached (grads_of fw w) p))
           \<and> (\<forall>p\<in>fst ` set (grads_of fw w). grad w3 p \<noteq> None)
           \<and> (\<forall>p\<in>set (param_list (heap w opt)). grad w' p = None)
           \<and> (distinct (param_list (heap w opt)) \<longrightarrow>
                (\<forall>p\<in>set (param_list (heap w opt)).
                   (\<forall>g. grad w3 p = Some g \<longrightarrow>
                      data w' p =
                        snd (adam_update fw (state_of fw (opt_state (heap w opt) p)) g (data w p))
                      \<and> opt_state (heap w' opt) p =
                        Some (fst (adam_update fw (state_of fw (opt_state (heap w opt) p)) g (data w p))))
                   \<and> (grad w3 p = None \<longrightarrow>
                        data w' p = data w p
                        \<and> opt_state (heap w' opt) p = opt_state (heap w opt) p)))"
proof -
  let ?ds = "grads_of fw w"
  let ?w0 = "emit fw Backward (forwarded fw w)"
  let ?w3 = "fold (deliver fw []) ?ds ?w0"
  let ?w' = "zero_grad fw opt (step fw opt ?w3)"
  let ?ps = "param_list (heap w opt)"
  have hooks: "hooks_on [] (forwarded fw w)" "hooks_on [] w"
    using assms by (simp_all add: hooks_on_Nil)
  have bw: "backward fw (loss_of fw w) (forwarded fw w) = Inr ?w3"
    using backward_deliver [OF hooks(1), of fw "loss_of fw w"] by (simp add: grads_of_def)
  have tr: "train fw opt w = Inr ?w'"
    using hooks(2) by (rule train_deliver)
  have c3: "calls ?w3 = calls w @ [Rand, Forward, Backward] @ map (\<lambda>d. AccumulateGrad (fst d)) ?ds"
    by (simp add: fold_deliver_calls leaf_calls_Nil)
  have c': "calls ?w' = calls ?w3 @ [Step opt, ZeroGrad opt]"
    by simp
  have acc: "data ?w3 p = data w p \<and> grad ?w3 p = acc_all fw (grad w p) (reached ?ds p)" for p
    using fold_accumulate [of fw ?ds ?w0 p] by simp
  have h3: "heap ?w3 = heap w"
    using fold_accumulate [of fw ?ds ?w0] by simp
  have pop: "grad ?w3 p \<noteq> None" if "p \<in> fst ` set ?ds" for p
  proof -
    have "reached ?ds p \<noteq> []" using that by (simp add: reached_empty_iff)
    then show ?thesis using acc [of p] by (simp add: acc_all_reached)
  qed
  have clr: "grad ?w' p = None" if "p \<in> set ?ps" for p
    using that by (simp add: zero_grad_grad h3)
  have upd: "(\<forall>g. grad ?w3 p = Some g \<longrightarrow>
               data ?w' p =
                 snd (adam_update fw (state_of fw (opt_state (heap w opt) p)) g (data w p))
               \<and> opt_state (heap ?w' opt) p =
                 Some (fst (adam_update fw (state_of fw (opt_state (heap w opt) p)) g (data w p))))
           \<and> (grad ?w3 p = None \<longrightarrow>
                 data ?w' p = data w p
                 \<and> opt_state (heap ?w' opt) p = opt_state (heap w opt) p)"
    if d: "distinct ?ps" and p: "p \<in> set ?ps" for p
  proof -
    have d3: "distinct (param_list (heap ?w3 opt))" and p3: "p \<in> set (param_list (heap ?w3 opt))"
      using d p by (simp_all add: h3)
    have sd: "data (step fw opt ?w3) p =
            snd (update_of fw (opt_state (heap ?w3 opt) p) (grad ?w3 p) (data ?w3 p))"
      using d3 p3 by (rule step_data)
    have ss: "opt_state (heap (step fw opt ?w3) opt) p =
            fst (update_of fw (opt_state (heap ?w3 opt) p) (grad ?w3 p) (data ?w3 p))"
      using d3 p3 by (rule step_state)
    have dd: "data ?w' p = snd (update_of fw (opt_state (heap w opt) p) (grad ?w3 p) (data w p))"
      using sd acc [of p] by (simp add: h3)
    have st: "opt_state (heap ?w' opt) p =
                fst (update_of fw (opt_state (heap w opt) p) (grad ?w3 p) (data w p))"
      using ss by (simp add: h3 acc [of p])
    show ?thesis
      unfolding dd st by (simp add: update_of_def)
  qed
  have 6: "\<forall>p. data ?w3 p = data w p
             \<and> grad ?w3 p = acc_all fw (grad w p) (reached (grads_of fw w) p)"
    using acc by blast
  have 7: "\<forall>p\<in>fst ` set (grads_of fw w). grad ?w3 p \<noteq> None"
    using pop by blast
  have 8: "\<forall>p\<in>set (param_list (heap w opt)). grad ?w' p = None"
    using clr by blast
  have 9: "distinct (param_list (heap w opt)) \<longrightarrow>
                (\<forall>p\<in>set (param_list (heap w opt)).
                   (\<forall>g. grad ?w3 p = Some g \<longrightarrow>
                      data ?w' p =
                        snd (adam_update fw (state_of fw (opt_state (heap w opt) p)) g (data w p))
                      \<and> opt_state (heap ?w' opt) p =
                        Some (fst (adam_update fw (state_of fw (opt_state (heap w opt) p)) g (data w p))))
                   \<and> (grad ?w3 p = None \<longrightarrow>
                        data ?w' p = data w p
                        \<and> opt_state (heap ?w' opt) p = opt_state (heap w opt) p))"
    using upd by blast
  show ?thesis
    by (intro exI [of _ ?w3] exI [of _ ?w'] conjI) (rule bw tr refl c3 c' 6 7 8 9)+
qed

theorem baseline_train_order_witness:
  "post_acc_hooks fresh_baseline3 = []
   \<and> param_list (heap fresh_baseline3 0) = [0, 1, 2]
   \<and> (\<exists>w3 w'. backward toy_torch (loss_of toy_torch fresh_baseline3) (forwarded toy_torch fresh_baseline3) = Inr w3
         \<and> train toy_torch 0 fresh_baseline3 = Inr w'
         \<and> calls w' = calls fresh_baseline3 @
             [Rand, Forward, Backward, AccumulateGrad 1, AccumulateGrad 0, Step 0, ZeroGrad 0]
         \<and> grad w3 0 = Some 2 \<and> grad w3 1 = Some 1 \<and> data w3 0 = 10 \<and> data w3 1 = 10
         \<and> data w' 0 = 8 \<and> data w' 1 = 9 \<and> data w' 2 = 10
         \<and> grad w' 0 = None \<and> grad w' 1 = None \<and> grad w' 2 = None)"
proof -
  have f: "post_acc_hooks fresh_baseline3 = []" "param_list (heap fresh_baseline3 0) = [0, 1, 2]"
    "data fresh_baseline3 = (\<lambda>p. 10)" "grad fresh_baseline3 = (\<lambda>p. None)" "rng fresh_baseline3 = 0"
    "opt_state (heap fresh_baseline3 0) = Map.empty"
    by (simp_all add: fresh_baseline3_def fresh_def)
  have ds: "grads_of toy_torch fresh_baseline3 = [(1, 1), (0, 2)]"
    by (simp add: grads_of_def loss_of_def f)
  from baseline_train_order [OF f(1), of toy_torch 0]
  obtain w3 w' where bw: "backward toy_torch (loss_of toy_torch fresh_baseline3) (forwarded toy_torch fresh_baseline3) = Inr w3"
    and tr: "train toy_torch 0 fresh_baseline3 = Inr w'"
    and c3: "calls w3 = calls fresh_baseline3 @ [Rand, Forward, Backward]
                 @ map (\<lambda>d. AccumulateGrad (fst d)) (grads_of toy_torch fresh_baseline3)"
    and c': "calls w' = calls w3 @ [Step 0, ZeroGrad 0]"
    and acc: "\<forall>p. data w3 p = data fresh_baseline3 p
                 \<and> grad w3 p = acc_all toy_torch (grad fresh_baseline3 p) (reached (grads_of toy_torch fresh_baseline3) p)"
    and clr: "\<forall>p\<in>set (param_list (heap fresh_baseline3 0)). grad w' p = None"
    and upd: "distinct (param_list (heap fresh_baseline3 0)) \<longrightarrow>
                (\<forall>p\<in>set (param_list (heap fresh_baseline3 0)).
                   (\<forall>g. grad w3 p = Some g \<longrightarrow>
                      data w' p =
                        snd (adam_update toy_torch (state_of toy_torch (opt_state (heap fresh_baseline3 0) p)) g (data fresh_baseline3 p))
                      \<and> opt_state (heap w' 0) p =
                        Some (fst (adam_update toy_torch (state_of toy_torch (opt_state (heap fresh_baseline3 0) p)) g (data fresh_baseline3 p))))
                   \<and> (grad w3 p = None \<longrightarrow>
                        data w' p = data fresh_baseline3 p
                        \<and> opt_state (heap w' 0) p = opt_state (heap fresh_baseline3 0) p))"
    by blast
  have cs: "calls w' = calls fresh_baseline3 @
             [Rand, Forward, Backward, AccumulateGrad 1, AccumulateGrad 0, Step 0, ZeroGrad 0]"
    using c3 c' by (simp add: ds)
  have g3: "grad w3 0 = Some 2" "grad w3 1 = Some 1" "grad w3 2 = None"
    "data w3 0 = 10" "data w3 1 = 10"
    using acc by (simp_all add: ds f reached_def accumulated_def)
  have g': "grad w' 0 = None \<and> grad w' 1 = None \<and> grad w' 2 = None"
    using clr by (simp add: f)
  have d': "data w' 0 = 8 \<and> data w' 1 = 9 \<and> data w' 2 = 10"
    using upd g3 by (simp add: f state_of_def)
  show ?thesis using f(1) f(2) bw tr cs g3 g' d' by blast
qed

text \<open>
  The claim as it is worded, with every parameter populated by the backward pass and
  every parameter mutated by the step, fails for a parameter the pass does not reach.
  The shared optimizer is over the parameters 0, 1 and 2 and the engine reaches 1 and
  0 only: after the backward pass the accumulator of parameter 2 is empty, and after the
  iteration parameter 2 has its old value and the optimizer has no state for it.
\<close>

theorem baseline_train_unreached_counterexample:
  "post_acc_hooks fresh_baseline3 = []
   \<and> param_list (heap fresh_baseline3 0) = [0, 1, 2]
   \<and> (\<exists>w3 w'. backward toy_torch (loss_of toy_torch fresh_baseline3) (forwarded toy_torch fresh_baseline3) = Inr w3
         \<and> train toy_torch 0 fresh_baseline3 = Inr w'
         \<and> grad w3 2 = None
         \<and> data w' 2 = data fresh_baseline3 2
         \<and> opt_state (heap w' 0) 2 = None)"
  by (simp add: toy_run_defs loss_of_def forwarded_def numeral_2_eq_2)

text \<open>
  C6. Each of the two measured windows (lines 80 to 92 around the baseline iterations,
  lines 219 to 231 around the fused ones) starts the recording, runs the three
  iterations with the recording on, takes the snapshot, writes it to its file and
  stops the recording, in this order. The log holds exactly the events of the
  operations of the three iterations, the file holds the log as it is when the
  iterations are over, and after the window the recording is off.
\<close>

theorem measured_windows:
  assumes "post_acc_hooks w = []" and "hooks_on ps v"
  shows "(\<exists>w2 w4 tr. repeat 3 (train fw opt) (record_memory_history fw True w) = Inr w2
            \<and> window_baseline fw opt w = Inr w4
            \<and> calls w2 = calls w @ [RecordMemoryHistory True] @ tr
            \<and> list_all (iteration_call False) tr
            \<and> recording w2
            \<and> history w2 = logged fw (calls w @ [RecordMemoryHistory True]) tr
            \<and> calls w4 = calls w2 @ [Snapshot, Dump ''snapshot.pickle'', RecordMemoryHistory False]
            \<and> files w4 ''snapshot.pickle'' = Some (history w2)
            \<and> \<not> recording w4)
       \<and> (\<exists>v2 v4 tr. repeat 3 (train' fw) (record_memory_history fw True v) = Inr v2
            \<and> window_fused fw v = Inr v4
            \<and> calls v2 = calls v @ [RecordMemoryHistory True] @ tr
            \<and> list_all (iteration_call (ps \<noteq> [])) tr
            \<and> recording v2
            \<and> history v2 = logged fw (calls v @ [RecordMemoryHistory True]) tr
            \<and> calls v4 = calls v2 @ [Snapshot, Dump ''snapshot-opt-in-bwd.pickle'', RecordMemoryHistory False]
            \<and> files v4 ''snapshot-opt-in-bwd.pickle'' = Some (history v2)
            \<and> \<not> recording v4)"
proof
  have "hooks_on [] w" using assms(1) by (simp add: hooks_on_Nil)
  from window_baseline_run [OF this, of fw opt]
  obtain w2 w4 tr where "repeat 3 (train fw opt) (record_memory_history fw True w) = Inr w2"
    "window_baseline fw opt w = Inr w4"
    "calls w2 = calls w @ [RecordMemoryHistory True] @ tr"
    "list_all (iteration_call False) tr"
    "recording w2"
    "history w2 = logged fw (calls w @ [RecordMemoryHistory True]) tr"
    "calls w4 = calls w2 @ [Snapshot, Dump ''snapshot.pickle'', RecordMemoryHistory False]"
    "files w4 = (files w)(''snapshot.pickle'' \<mapsto> history w2)"
    "\<not> recording w4"
    by blast
  then show "\<exists>w2 w4 tr. repeat 3 (train fw opt) (record_memory_history fw True w) = Inr w2
            \<and> window_baseline fw opt w = Inr w4
            \<and> calls w2 = calls w @ [RecordMemoryHistory True] @ tr
            \<and> list_all (iteration_call False) tr
            \<and> recording w2
            \<and> history w2 = logged fw (calls w @ [RecordMemoryHistory True]) tr
            \<and> calls w4 = calls w2 @ [Snapshot, Dump ''snapshot.pickle'', RecordMemoryHistory False]
            \<and> files w4 ''snapshot.pickle'' = Some (history w2)
            \<and> \<not> recording w4"
    by (intro exI [of _ w2] exI [of _ w4] exI [of _ tr]) simp
next
  from window_fused_run [OF assms(2), of fw]
  obtain v2 v4 tr where "repeat 3 (train' fw) (record_memory_history fw True v) = Inr v2"
    "window_fused fw v = Inr v4"
    "calls v2 = calls v @ [RecordMemoryHistory True] @ tr"
    "list_all (iteration_call (ps \<noteq> [])) tr"
    "recording v2"
    "history v2 = logged fw (calls v @ [RecordMemoryHistory True]) tr"
    "calls v4 = calls v2 @ [Snapshot, Dump ''snapshot-opt-in-bwd.pickle'', RecordMemoryHistory False]"
    "files v4 = (files v)(''snapshot-opt-in-bwd.pickle'' \<mapsto> history v2)"
    "\<not> recording v4"
    by blast
  then show "\<exists>v2 v4 tr. repeat 3 (train' fw) (record_memory_history fw True v) = Inr v2
            \<and> window_fused fw v = Inr v4
            \<and> calls v2 = calls v @ [RecordMemoryHistory True] @ tr
            \<and> list_all (iteration_call (ps \<noteq> [])) tr
            \<and> recording v2
            \<and> history v2 = logged fw (calls v @ [RecordMemoryHistory True]) tr
            \<and> calls v4 = calls v2 @ [Snapshot, Dump ''snapshot-opt-in-bwd.pickle'', RecordMemoryHistory False]
            \<and> files v4 ''snapshot-opt-in-bwd.pickle'' = Some (history v2)
            \<and> \<not> recording v4"
    by (intro exI [of _ v2] exI [of _ v4] exI [of _ tr]) simp
qed

theorem measured_windows_witness:
  "post_acc_hooks fresh_baseline = [] \<and> hooks_on [0, 1] fresh_fused
   \<and> (\<exists>w4. window_baseline toy_torch 0 fresh_baseline = Inr w4
         \<and> calls w4 = calls fresh_baseline @ [RecordMemoryHistory True]
               @ concat (replicate 3
                   [Rand, Forward, Backward, AccumulateGrad 1, AccumulateGrad 0, Step 0, ZeroGrad 0])
               @ [Snapshot, Dump ''snapshot.pickle'', RecordMemoryHistory False]
         \<and> files w4 ''snapshot.pickle'' = Some (concat (replicate 3
               [Rand, Forward, Backward, AccumulateGrad 1, AccumulateGrad 0, Step 0, ZeroGrad 0]))
         \<and> \<not> recording w4)
   \<and> (\<exists>v4. window_fused toy_torch fresh_fused = Inr v4
         \<and> calls v4 = calls fresh_fused @ [RecordMemoryHistory True]
               @ concat (replicate 3
                   [Rand, Forward, Backward,
                    AccumulateGrad 1, Hook 1, DictLookup 1, Step 1, DictLookup 1, ZeroGrad 1,
                    AccumulateGrad 0, Hook 0, DictLookup 0, Step 0, DictLookup 0, ZeroGrad 0])
               @ [Snapshot, Dump ''snapshot-opt-in-bwd.pickle'', RecordMemoryHistory False]
         \<and> files v4 ''snapshot-opt-in-bwd.pickle'' = Some (concat (replicate 3
               [Rand, Forward, Backward,
                AccumulateGrad 1, Hook 1, DictLookup 1, Step 1, DictLookup 1, ZeroGrad 1,
                AccumulateGrad 0, Hook 0, DictLookup 0, Step 0, DictLookup 0, ZeroGrad 0]))
         \<and> \<not> recording v4)"
proof -
  have h1: "post_acc_hooks fresh_baseline = []"
    by (simp add: fresh_baseline_def fresh_def)
  have h2: "hooks_on [0, 1] fresh_fused" by (rule hooks_on_fresh_fused)
  have general: "(\<exists>w4. window_baseline toy_torch 0 fresh_baseline = Inr w4 \<and> \<not> recording w4)
      \<and> (\<exists>v4. window_fused toy_torch fresh_fused = Inr v4 \<and> \<not> recording v4)"
    using measured_windows [OF h1 h2, of toy_torch 0] by blast
  have b: "\<exists>w4. window_baseline toy_torch 0 fresh_baseline = Inr w4
         \<and> calls w4 = calls fresh_baseline @ [RecordMemoryHistory True]
               @ concat (replicate 3
                   [Rand, Forward, Backward, AccumulateGrad 1, AccumulateGrad 0, Step 0, ZeroGrad 0])
               @ [Snapshot, Dump ''snapshot.pickle'', RecordMemoryHistory False]
         \<and> files w4 ''snapshot.pickle'' = Some (concat (replicate 3
               [Rand, Forward, Backward, AccumulateGrad 1, AccumulateGrad 0, Step 0, ZeroGrad 0]))
         \<and> \<not> recording w4"
    by (simp add: toy_run_defs)
  have f: "\<exists>v4. window_fused toy_torch fresh_fused = Inr v4
         \<and> calls v4 = calls fresh_fused @ [RecordMemoryHistory True]
               @ concat (replicate 3
                   [Rand, Forward, Backward,
                    AccumulateGrad 1, Hook 1, DictLookup 1, Step 1, DictLookup 1, ZeroGrad 1,
                    AccumulateGrad 0, Hook 0, DictLookup 0, Step 0, DictLookup 0, ZeroGrad 0])
               @ [Snapshot, Dump ''snapshot-opt-in-bwd.pickle'', RecordMemoryHistory False]
         \<and> files v4 ''snapshot-opt-in-bwd.pickle'' = Some (concat (replicate 3
               [Rand, Forward, Backward,
                AccumulateGrad 1, Hook 1, DictLookup 1, Step 1, DictLookup 1, ZeroGrad 1,
                AccumulateGrad 0, Hook 0, DictLookup 0, Step 0, DictLookup 0, ZeroGrad 0]))
         \<and> \<not> recording v4"
    by (simp add: toy_run_defs)
  show ?thesis using h1 h2 general b f by blast
qed

text \<open>
  C4. Take a baseline store (no hook, one shared optimizer over the parameters \<open>ps\<close>)
  and a fused store (the hooks on \<open>ps\<close>, one optimizer per parameter) that agree: the
  same parameter values, the same position in the stream of batches, no gradient
  pending, the same optimizer state for every parameter. Both loops run on the same
  framework, so on the same update rule, which works on one parameter at a time, and
  the engine accumulates at most one gradient into a leaf per pass. Then for every
  \<open>n\<close>, \<open>n\<close> iterations of the baseline loop and \<open>n\<close> iterations of the fused loop both
  return, with the same parameter values, and the two stores agree again.
\<close>

theorem fused_equals_baseline:
  assumes "hooks_on ps wh"
    and "post_acc_hooks wb = []" and "param_list (heap wb opt) = ps"
    and "agree ps opt wb wh"
    and "\<forall>l. distinct (map fst (leaf_grads fw l))"
  shows "\<exists>wb' wh'. repeat n (train fw opt) wb = Inr wb'
           \<and> repeat n (train' fw) wh = Inr wh'
           \<and> data wb' = data wh'
           \<and> agree ps opt wb' wh'"
proof -
  have "hooks_on [] wb" using assms(2) by (simp add: hooks_on_Nil)
  from agree_repeat [OF assms(5) assms(1) this assms(3) assms(4), of n]
  obtain wb' wh' where "repeat n (train fw opt) wb = Inr wb'" "repeat n (train' fw) wh = Inr wh'"
    "agree ps opt wb' wh'"
    by blast
  then show ?thesis by (auto simp: agree_def)
qed

theorem fused_equals_baseline_witness:
  "hooks_on [0, 1] fresh_fused
   \<and> post_acc_hooks fresh_baseline = [] \<and> param_list (heap fresh_baseline 0) = [0, 1]
   \<and> agree [0, 1] 0 fresh_baseline fresh_fused
   \<and> (\<exists>wb' wh'. repeat 2 (train toy_torch 0) fresh_baseline = Inr wb'
         \<and> repeat 2 (train' toy_torch) fresh_fused = Inr wh'
         \<and> data wb' = data wh' \<and> data wb' 0 = 6 \<and> data wh' 0 = 6 \<and> data wb' 1 = 8 \<and> data wh' 1 = 8)"
proof -
  have h1: "hooks_on [0, 1] fresh_fused" by (rule hooks_on_fresh_fused)
  have f: "post_acc_hooks fresh_baseline = []" "param_list (heap fresh_baseline 0) = [0, 1]"
    "data fresh_baseline = (\<lambda>p. 10)" "grad fresh_baseline = (\<lambda>p. None)" "rng fresh_baseline = 0"
    "opt_state (heap fresh_baseline 0) = Map.empty"
    by (simp_all add: fresh_baseline_def fresh_def)
  have h4: "agree [0, 1] 0 fresh_baseline fresh_fused"
    by (simp add: agree_def f fresh_fused_fields)
  have h5: "\<forall>l. distinct (map fst (leaf_grads toy_torch l))" by simp
  from fused_equals_baseline [OF h1 f(1) f(2) h4 h5, of 2]
  obtain wb' wh' where r: "repeat 2 (train toy_torch 0) fresh_baseline = Inr wb'"
    "repeat 2 (train' toy_torch) fresh_fused = Inr wh'" "data wb' = data wh'"
    by blast
  have "\<exists>w. repeat 2 (train toy_torch 0) fresh_baseline = Inr w \<and> data w 0 = 6 \<and> data w 1 = 8"
    by (simp add: toy_run_defs numeral_2_eq_2)
  then have "data wb' 0 = 6 \<and> data wb' 1 = 8" using r(1) by auto
  then show ?thesis using h1 f(1) f(2) h4 r by auto
qed

text \<open>
  C8. In the script the dictionary is assigned once, and no hook call and no lookup
  comes before the assignment: the fused training starts after it, and at the end of the
  script the dictionary is still the one built at line 175. Every call of
  \<open>optimizer_hook\<close>, whether it returns or raises, leaves the dictionary as it was. When
  the optimizer found for \<open>p\<close> was constructed over \<open>[p]\<close>, the store the hook returns is
  the old store except for the value of \<open>p\<close>, the gradient accumulator of \<open>p\<close> (now
  empty) and, in the optimizer of \<open>p\<close>, the state for \<open>p\<close>; the sequence of operations
  and the memory log, which record the run, have grown.
\<close>

theorem optimizer_dict_read_only:
  assumes "distinct ps" and "post_acc_hooks w0 = []"
    and "optimizer_dict w p = Some opt" and "param_list (heap w opt) = [p]"
  shows "(\<exists>w2 wf pre post.
            window_baseline fw (next_oid w0) (snd (new_adam fw ps w0)) = Inr w2
            \<and> script fw ps w0 = Inr wf
            \<and> calls wf = calls w0 @ pre @ [DictAssign] @ post
            \<and> DictAssign \<notin> set pre \<and> (\<forall>c\<in>set pre. \<not> uses_dict c)
            \<and> DictAssign \<notin> set post
            \<and> optimizer_dict wf = optimizer_dict (build_optimizer_dict fw ps w2))
       \<and> (\<forall>q u u' e. optimizer_hook fw q u = Inr u' \<or> optimizer_hook fw q u = Inl (e, u')
             \<longrightarrow> optimizer_dict u' = optimizer_dict u)
       \<and> (\<exists>w'. optimizer_hook fw p w = Inr w'
             \<and> optimizer_dict w' = optimizer_dict w
             \<and> w' = w\<lparr>data := (data w)(p := data w' p),
                       grad := (grad w)(p := None),
                       heap := (heap w)(opt := (heap w opt)\<lparr>opt_state := (opt_state (heap w opt))(p := opt_state (heap w' opt) p)\<rparr>),
                       history := history w',
                       calls := calls w'\<rparr>)"
proof (intro conjI)
  show "\<exists>w2 wf pre post.
            window_baseline fw (next_oid w0) (snd (new_adam fw ps w0)) = Inr w2
            \<and> script fw ps w0 = Inr wf
            \<and> calls wf = calls w0 @ pre @ [DictAssign] @ post
            \<and> DictAssign \<notin> set pre \<and> (\<forall>c\<in>set pre. \<not> uses_dict c)
            \<and> DictAssign \<notin> set post
            \<and> optimizer_dict wf = optimizer_dict (build_optimizer_dict fw ps w2)"
    using assms(1) assms(2) by (rule script_run)
  show "\<forall>q u u' e. optimizer_hook fw q u = Inr u' \<or> optimizer_hook fw q u = Inl (e, u')
             \<longrightarrow> optimizer_dict u' = optimizer_dict u"
    using optimizer_hook_dict by blast
  let ?w' = "hooked fw p opt w"
  have run: "optimizer_hook fw p w = Inr ?w'"
    using assms(3) by (rule optimizer_hook_present)
  have "?w' = w\<lparr>data := (data w)(p := data ?w' p),
                 grad := (grad w)(p := None),
                 heap := (heap w)(opt := (heap w opt)\<lparr>opt_state := (opt_state (heap w opt))(p := opt_state (heap ?w' opt) p)\<rparr>),
                 history := history ?w',
                 calls := calls ?w'\<rparr>"
    by (subst hooked_world [OF assms(4)])
       (simp add: hooked_data [OF assms(4)] hooked_state [OF assms(4)] hooked_history)
  then show "\<exists>w'. optimizer_hook fw p w = Inr w'
             \<and> optimizer_dict w' = optimizer_dict w
             \<and> w' = w\<lparr>data := (data w)(p := data w' p),
                       grad := (grad w)(p := None),
                       heap := (heap w)(opt := (heap w opt)\<lparr>opt_state := (opt_state (heap w opt))(p := opt_state (heap w' opt) p)\<rparr>),
                       history := history w',
                       calls := calls w'\<rparr>"
    using run by (intro exI [of _ ?w']) simp
qed

theorem optimizer_dict_read_only_witness:
  "distinct [0, 1 :: nat] \<and> post_acc_hooks fresh = []
   \<and> optimizer_dict (accumulate_grad toy_torch 0 3 fresh_fused) 0 = Some 0
   \<and> param_list (heap (accumulate_grad toy_torch 0 3 fresh_fused) 0) = [0]
   \<and> (\<exists>wf. script toy_torch [0, 1] fresh = Inr wf
         \<and> count_list (calls wf) DictAssign = 1
         \<and> optimizer_dict wf = [0 \<mapsto> 1, 1 \<mapsto> 2])
   \<and> (\<exists>w'. optimizer_hook toy_torch 0 (accumulate_grad toy_torch 0 3 fresh_fused) = Inr w'
         \<and> optimizer_dict w' = optimizer_dict (accumulate_grad toy_torch 0 3 fresh_fused)
         \<and> optimizer_dict w' = [0 \<mapsto> 0, 1 \<mapsto> 1]
         \<and> data w' 0 = 7 \<and> data w' 1 = 10 \<and> grad w' 0 = None)"
proof -
  let ?w = "accumulate_grad toy_torch 0 3 fresh_fused"
  have h1: "distinct [0, 1 :: nat]" by simp
  have h2: "post_acc_hooks fresh = []" by (simp add: fresh_def)
  have h3: "optimizer_dict ?w 0 = Some 0" by (simp add: fresh_fused_fields)
  have h4: "param_list (heap ?w 0) = [0]" by (simp add: fresh_fused_fields)
  from optimizer_dict_read_only [OF h1 h2 h3 h4, of toy_torch]
  obtain w' where w': "optimizer_hook toy_torch 0 ?w = Inr w'"
    "optimizer_dict w' = optimizer_dict ?w"
    by blast
  have "\<exists>u. optimizer_hook toy_torch 0 ?w = Inr u \<and> data u 0 = 7 \<and> data u 1 = 10 \<and> grad u 0 = None"
    by (simp add: toy_run_defs)
  then have v: "data w' 0 = 7 \<and> data w' 1 = 10 \<and> grad w' 0 = None" using w'(1) by auto
  have d: "optimizer_dict w' = [0 \<mapsto> 0, 1 \<mapsto> 1]"
    using w'(2) by (simp add: fresh_fused_fields)
  have s: "\<exists>wf. script toy_torch [0, 1] fresh = Inr wf
         \<and> count_list (calls wf) DictAssign = 1
         \<and> optimizer_dict wf = [0 \<mapsto> 1, 1 \<mapsto> 2]"
    by (simp add: script_def toy_run_defs numeral_2_eq_2)
  show ?thesis using h1 h2 h3 h4 w' v d s by blast
qed

end
